theory Spec2Isabelle
  imports Complex_Main "HOL-Library.Multiset"
begin

section \<open>Data model of \<open>src/components/puzzle-game.tsx\<close>\<close>

text \<open>
  The component keeps a list of tiles, each with an identity, a value and a position, and
  the session state (won flag, move count, time, clock and theme). TypeScript numbers that hold integers are modelled as
  \<open>int\<close>; array indices are \<open>nat\<close>. The record fields \<open>id\<close> and \<open>value\<close> of the
  source are written \<open>id_t\<close> and \<open>value_t\<close>.
\<close>

record Position =
  row :: int
  col :: int

record Tile =
  id_t :: int
  value_t :: int
  position :: Position

definition GRID_SIZE :: int where
  "GRID_SIZE = 4"

definition EMPTY_TILE_VALUE :: int where
  "EMPTY_TILE_VALUE = 0"

text \<open>
  JavaScript's \<open>%\<close> truncates towards zero: the result has the sign of the dividend.
  \<open>Math.floor (a / b)\<close> on integers with a positive divisor is HOL's \<open>div\<close> on \<open>int\<close>.
\<close>

definition js_rem :: "int \<Rightarrow> int \<Rightarrow> int" where
  "js_rem a b = sgn a * (\<bar>a\<bar> mod \<bar>b\<bar>)"

section \<open>The solvability check\<close>

text \<open>The two nested \<open>for\<close> loops of \<open>isSolvable\<close> (lines 101 to 107).\<close>

function inner_loop :: "int list \<Rightarrow> nat \<Rightarrow> nat \<Rightarrow> int \<Rightarrow> int" where
  "inner_loop ws i j inversions =
     (if j < length ws
      then inner_loop ws i (j + 1) (if ws ! i > ws ! j then inversions + 1 else inversions)
      else inversions)"
  by pat_completeness auto
termination
  by (relation "measure (\<lambda>(ws, i, j, inversions). length ws - j)") auto

declare inner_loop.simps [simp del]

function outer_loop :: "int list \<Rightarrow> nat \<Rightarrow> int \<Rightarrow> int" where
  "outer_loop ws i inversions =
     (if i < length ws
      then outer_loop ws (i + 1) (inner_loop ws i (i + 1) inversions)
      else inversions)"
  by pat_completeness auto
termination
  by (relation "measure (\<lambda>(ws, i, inversions). length ws - i)") auto

declare outer_loop.simps [simp del]

text \<open>\<open>Array.prototype.indexOf\<close>: the first index holding the value, or \<open>-1\<close>.\<close>

fun indexOf_from :: "int list \<Rightarrow> int \<Rightarrow> int \<Rightarrow> int" where
  "indexOf_from [] v k = - 1"
| "indexOf_from (x # xs) v k = (if x = v then k else indexOf_from xs v (k + 1))"

definition indexOf :: "int list \<Rightarrow> int \<Rightarrow> int" where
  "indexOf xs v = indexOf_from xs v 0"

definition isSolvable :: "int list \<Rightarrow> bool" where
  "isSolvable values =
     (let valuesWithoutEmpty = filter (\<lambda>val. val \<noteq> EMPTY_TILE_VALUE) values;
          inversions = outer_loop valuesWithoutEmpty 0 0;
          emptyIndex = indexOf values EMPTY_TILE_VALUE;
          emptyRow = emptyIndex div GRID_SIZE;
          emptyRowFromBottom = GRID_SIZE - emptyRow
      in (js_rem emptyRowFromBottom 2 = 0 \<and> js_rem inversions 2 = 1)
         \<or> (js_rem emptyRowFromBottom 2 = 1 \<and> js_rem inversions 2 = 0))"

text \<open>
  The specification's inversion count: the number of index pairs \<open>(i, j)\<close> with \<open>i < j\<close>
  whose values are out of order.
\<close>

definition inversions_spec :: "int list \<Rightarrow> nat" where
  "inversions_spec vs = card {(i, j). i < j \<and> j < length vs \<and> vs ! i > vs ! j}"

text \<open>A recursive count of the same pairs, used to reason about the loops.\<close>

fun inv_count :: "int list \<Rightarrow> nat" where
  "inv_count [] = 0"
| "inv_count (x # xs) = length (filter (\<lambda>y. x > y) xs) + inv_count xs"

text \<open>
  The number of out-of-order pairs with the first element in one list and the second in
  another: the inversions that a concatenation adds.
\<close>

definition cross_count :: "int list \<Rightarrow> int list \<Rightarrow> nat" where
  "cross_count xs ys = sum_list (map (\<lambda>x. length (filter (\<lambda>y. x > y) ys)) xs)"

section \<open>Shuffling\<close>

text \<open>
  \<open>Math.random ()\<close> returns a double of \<open>[0, 1)\<close>. Every such double is \<open>m / 2 ^ k\<close>
  for naturals \<open>m < 2 ^ 53\<close> and \<open>53 \<le> k \<le> 1074\<close> (a normal double has
  \<open>2 ^ 52 \<le> m\<close>, a subnormal one has \<open>k = 1074\<close>), and every such quotient is a double
  of \<open>[0, 1)\<close>; a random number is modelled by the pair \<open>(m, k)\<close>.
\<close>

type_synonym random_number = "nat \<times> nat"

definition random_value :: "random_number \<Rightarrow> real" where
  "random_value r = real (fst r) / 2 ^ snd r"

definition is_random_double :: "random_number \<Rightarrow> bool" where
  "is_random_double r \<longleftrightarrow> fst r < 2 ^ 53 \<and> 53 \<le> snd r \<and> snd r \<le> 1074"

text \<open>
  The random source is the sequence of the numbers that \<open>Math.random\<close> returns: the
  \<open>n\<close>-th call returns \<open>rnd n\<close>.
\<close>

type_synonym random_source = "nat \<Rightarrow> random_number"

definition random_ok :: "random_source \<Rightarrow> bool" where
  "random_ok rnd \<longleftrightarrow> (\<forall>n. is_random_double (rnd n))"

text \<open>
  The product \<open>Math.random () * (i + 1)\<close> is a product of doubles: the exact product
  \<open>m * (i + 1) / 2 ^ k\<close> rounded to the nearest double, ties to the even significand
  (\<open>i + 1\<close> is itself exact: an array has fewer than \<open>2 ^ 32\<close> elements). In units of
  \<open>1 / 2 ^ k\<close> the exact product is the natural \<open>N = m * (i + 1)\<close>; the rounding keeps
  its 53 leading bits. \<open>shift_of N\<close> is the number of bits that are dropped, and
  \<open>round_product N\<close> the rounded product in the same units. (A product with more than
  53 bits is at least \<open>2 ^ 53 / 2 ^ 1074\<close>, a normal double, so 53 bits is its precision;
  a product of at most 53 bits is exact.)
\<close>

function shift_of :: "nat \<Rightarrow> nat" where
  "shift_of N = (if N < 2 ^ 53 then 0 else Suc (shift_of (N div 2)))"
  by pat_completeness auto
termination
  by (relation "measure (\<lambda>N. N)") auto

declare shift_of.simps [simp del]

definition round_product :: "nat \<Rightarrow> nat" where
  "round_product N =
     (let s = shift_of N; q = N div 2 ^ s; rest = N mod 2 ^ s
      in if 2 * rest > 2 ^ s \<or> (2 * rest = 2 ^ s \<and> odd q) then (q + 1) * 2 ^ s
         else q * 2 ^ s)"

text \<open>\<open>Math.floor (Math.random () * (i + 1))\<close> for the random number \<open>r\<close>.\<close>

definition random_index :: "random_number \<Rightarrow> nat \<Rightarrow> nat" where
  "random_index r i = round_product (fst r * (i + 1)) div 2 ^ snd r"

text \<open>
  The destructuring assignment \<open>[array[i], array[j]] = [array[j], array[i]]\<close>: both
  reads happen before both writes.
\<close>

definition swap :: "nat \<Rightarrow> nat \<Rightarrow> 'a list \<Rightarrow> 'a list" where
  "swap i j array = (array[i := array ! j])[j := array ! i]"

text \<open>
  The loop of \<open>shuffleArray\<close>, from index \<open>i\<close> down to 1; \<open>n\<close> counts the calls of
  \<open>Math.random\<close> made so far. The array is mutated in place in the source; the model
  returns it together with the new count.
\<close>

function shuffle_loop :: "random_source \<Rightarrow> nat \<Rightarrow> int list \<Rightarrow> nat \<Rightarrow> int list \<times> nat" where
  "shuffle_loop rnd n array i =
     (if i > 0
      then let j = random_index (rnd n) i
           in shuffle_loop rnd (n + 1) (swap i j array) (i - 1)
      else (array, n))"
  by pat_completeness auto
termination
  by (relation "measure (\<lambda>(rnd, n, array, i). i)") auto

declare shuffle_loop.simps [simp del]

definition shuffleArray :: "random_source \<Rightarrow> nat \<Rightarrow> int list \<Rightarrow> int list \<times> nat" where
  "shuffleArray rnd n array = shuffle_loop rnd n array (length array - 1)"

section \<open>Session state and its handlers\<close>

record Session =
  tiles :: "Tile list"
  isWon :: bool
  moveCount :: int
  time :: int
  isRunning :: bool
  isDarkMode :: bool

text \<open>The state of the first render (the \<open>useState\<close> initial values).\<close>

definition initialSession :: Session where
  "initialSession =
     \<lparr>tiles = [], isWon = False, moveCount = 0, time = 0, isRunning = False,
      isDarkMode = False\<rparr>"

text \<open>
  The \<open>do ... while (!isSolvable (values))\<close> loop of \<open>initializeGame\<close>. It may run
  for ever (a source that keeps producing unsolvable orders), so the result is optional:
  \<open>None\<close> stands for a loop that never ends.
\<close>

partial_function (option) shuffle_until_solvable ::
    "random_source \<Rightarrow> nat \<Rightarrow> int list \<Rightarrow> int list option" where
  "shuffle_until_solvable rnd n values =
     (case shuffleArray rnd n values of
        (values', n') \<Rightarrow>
          if \<not> isSolvable values' then shuffle_until_solvable rnd n' values'
          else Some values')"

text \<open>The \<open>for\<close> loop that pushes one tile per index (lines 78 to 86).\<close>

definition newTiles :: "int list \<Rightarrow> Tile list" where
  "newTiles values =
     map (\<lambda>i. \<lparr>id_t = int i, value_t = values ! i,
               position = \<lparr>row = int i div GRID_SIZE, col = js_rem (int i) GRID_SIZE\<rparr>\<rparr>)
       [0..<length values]"

definition initializeGame :: "random_source \<Rightarrow> Session \<Rightarrow> Session option" where
  "initializeGame rnd st =
     (case shuffle_until_solvable rnd 0 (map int [0..<nat (GRID_SIZE * GRID_SIZE)]) of
        None \<Rightarrow> None
      | Some values \<Rightarrow>
          Some (st\<lparr>tiles := newTiles values, isWon := False, moveCount := 0, time := 0,
                   isRunning := True\<rparr>))"

text \<open>The win check of the effect at lines 50 to 66.\<close>

definition hasWon :: "Tile list \<Rightarrow> bool" where
  "hasWon ts =
     list_all (\<lambda>tile.
        if value_t tile = EMPTY_TILE_VALUE
        then row (position tile) = GRID_SIZE - 1 \<and> col (position tile) = GRID_SIZE - 1
        else let expectedRow = (value_t tile - 1) div GRID_SIZE;
                 expectedCol = js_rem (value_t tile - 1) GRID_SIZE
             in row (position tile) = expectedRow \<and> col (position tile) = expectedCol) ts"

definition winCheck :: "Session \<Rightarrow> Session" where
  "winCheck st =
     (if length (tiles st) = 0 then st
      else if hasWon (tiles st) \<and> \<not> isWon st \<and> moveCount st > 0
           then st\<lparr>isWon := True, isRunning := False\<rparr>
           else st)"

text \<open>The adjacency test of \<open>handleTileClick\<close> (lines 141 and 142).\<close>

definition isAdjacent :: "Position \<Rightarrow> Position \<Rightarrow> bool" where
  "isAdjacent p e \<longleftrightarrow>
     (row p = row e \<and> \<bar>col p - col e\<bar> = 1) \<or> (col p = col e \<and> \<bar>row p - row e\<bar> = 1)"

definition handleTileClick :: "Tile \<Rightarrow> Session \<Rightarrow> Session" where
  "handleTileClick clickedTile st =
     (if isWon st then st
      else case find (\<lambda>tile. value_t tile = EMPTY_TILE_VALUE) (tiles st) of
        None \<Rightarrow> st
      | Some emptyTile \<Rightarrow>
          if isAdjacent (position clickedTile) (position emptyTile)
          then st\<lparr>tiles :=
                     map (\<lambda>tile.
                       if value_t tile = value_t clickedTile
                       then tile\<lparr>position := position emptyTile\<rparr>
                       else if value_t tile = EMPTY_TILE_VALUE
                       then tile\<lparr>position := position clickedTile\<rparr>
                       else tile) (tiles st),
                   moveCount := moveCount st + 1,
                   isRunning := (if \<not> isRunning st then True else isRunning st)\<rparr>
          else st)"

text \<open>The timer's tick, the Reset Timer button and the dark mode switch.\<close>

definition tick :: "Session \<Rightarrow> Session" where
  "tick st = (if isRunning st \<and> \<not> isWon st then st\<lparr>time := time st + 1\<rparr> else st)"

definition resetTimer :: "Session \<Rightarrow> Session" where
  "resetTimer st = st\<lparr>moveCount := 0, time := 0, isRunning := True, isWon := False\<rparr>"

definition toggleDarkMode :: "Session \<Rightarrow> Session" where
  "toggleDarkMode st = st\<lparr>isDarkMode := \<not> isDarkMode st\<rparr>"

text \<open>
  The events of a session. The board renders one clickable element per tile of the
  current board whose value is not the empty one (lines 224 to 247), so a click carries
  such a tile.
\<close>

datatype event =
    NewGame random_source
  | Click Tile
  | WinCheck
  | Tick
  | ResetTimer
  | ToggleDarkMode

fun apply_event :: "event \<Rightarrow> Session \<Rightarrow> Session option" where
  "apply_event (NewGame rnd) st = initializeGame rnd st"
| "apply_event (Click tile) st =
     (if tile \<in> set (tiles st) \<and> value_t tile \<noteq> EMPTY_TILE_VALUE
      then Some (handleTileClick tile st) else None)"
| "apply_event WinCheck st = Some (winCheck st)"
| "apply_event Tick st = Some (tick st)"
| "apply_event ResetTimer st = Some (resetTimer st)"
| "apply_event ToggleDarkMode st = Some (toggleDarkMode st)"

text \<open>
  An event is well formed when the random source of a new game yields numbers of
  \<open>[0, 1)\<close> only, as \<open>Math.random\<close> does. A session is reachable when well-formed
  events lead to it from the initial one.
\<close>

fun event_ok :: "event \<Rightarrow> bool" where
  "event_ok (NewGame rnd) = random_ok rnd"
| "event_ok (Click tile) = True"
| "event_ok WinCheck = True"
| "event_ok Tick = True"
| "event_ok ResetTimer = True"
| "event_ok ToggleDarkMode = True"

inductive reachable :: "Session \<Rightarrow> bool" where
  reachable_init: "reachable initialSession"
| reachable_step:
    "reachable st \<Longrightarrow> event_ok e \<Longrightarrow> apply_event e st = Some st' \<Longrightarrow> reachable st'"

section \<open>The board of the specification\<close>

text \<open>
  The cells of the grid, and the Board invariant: the tiles' positions are exactly the
  cells of the grid, each once, and their values are exactly \<open>0, \<dots>, 15\<close>, each once.
\<close>

definition grid_cells :: "Position set" where
  "grid_cells = (\<lambda>(r, c). \<lparr>row = r, col = c\<rparr>) ` ({0..<GRID_SIZE} \<times> {0..<GRID_SIZE})"

definition board_inv :: "Tile list \<Rightarrow> bool" where
  "board_inv ts \<longleftrightarrow>
     mset (map position ts) = mset_set grid_cells
     \<and> mset (map value_t ts) = mset_set {0..<GRID_SIZE * GRID_SIZE}"

text \<open>
  The row-major linear value sequence of a board: the value of the tile at each cell, row
  by row; \<open>None\<close> when some cell holds no tile.
\<close>

definition valueAt :: "Tile list \<Rightarrow> Position \<Rightarrow> int option" where
  "valueAt ts p = map_option value_t (find (\<lambda>tile. position tile = p) ts)"

definition cell_of :: "nat \<Rightarrow> Position" where
  "cell_of i = \<lparr>row = int i div GRID_SIZE, col = int i mod GRID_SIZE\<rparr>"

definition cell_index :: "Position \<Rightarrow> nat" where
  "cell_index p = nat (row p * GRID_SIZE + col p)"

definition linear_values :: "Tile list \<Rightarrow> int list option" where
  "linear_values ts = those (map (\<lambda>i. valueAt ts (cell_of i)) [0..<nat (GRID_SIZE * GRID_SIZE)])"

text \<open>The canonical place of a tile, as the specification states it.\<close>

definition in_canonical_place :: "Tile \<Rightarrow> bool" where
  "in_canonical_place t \<longleftrightarrow>
     (if value_t t = 0 then position t = \<lparr>row = GRID_SIZE - 1, col = GRID_SIZE - 1\<rparr>
      else position t = \<lparr>row = (value_t t - 1) div GRID_SIZE,
                          col = (value_t t - 1) mod GRID_SIZE\<rparr>)"

section \<open>Example sessions\<close>

text \<open>
  A board one slide away from the solved one: the empty cell at row 3, column 2, tile 15
  to its right, tile 11 above it, tile 12 diagonally above.
\<close>

definition example_values :: "int list" where
  "example_values = [1, 2, 3, 4, 5, 6, 7, 8, 9, 10, 11, 12, 13, 14, 0, 15]"

definition tile_of :: "int \<Rightarrow> int \<Rightarrow> int \<Rightarrow> int \<Rightarrow> Tile" where
  "tile_of i v r c = \<lparr>id_t = i, value_t = v, position = \<lparr>row = r, col = c\<rparr>\<rparr>"

definition example_session :: Session where
  "example_session =
     \<lparr>tiles = newTiles example_values, isWon = False, moveCount = 0, time = 0,
      isRunning = True, isDarkMode = False\<rparr>"

text \<open>
  The solved board, and a session that has been won on it after two moves.
\<close>

definition solved_values :: "int list" where
  "solved_values = [1, 2, 3, 4, 5, 6, 7, 8, 9, 10, 11, 12, 13, 14, 15, 0]"

definition won_session :: Session where
  "won_session =
     \<lparr>tiles = newTiles solved_values, isWon = True, moveCount = 2, time = 0,
      isRunning = False, isDarkMode = False\<rparr>"

text \<open>
  The session right after a new game that dealt the solved board, and the tiles after
  sliding tile 15 into the empty cell.
\<close>

definition fresh_session :: Session where
  "fresh_session =
     \<lparr>tiles = newTiles solved_values, isWon = False, moveCount = 0, time = 0,
      isRunning = True, isDarkMode = False\<rparr>"

definition moved_tiles :: "Tile list" where
  "moved_tiles =
    [tile_of 0 1 0 0, tile_of 1 2 0 1, tile_of 2 3 0 2, tile_of 3 4 0 3,
     tile_of 4 5 1 0, tile_of 5 6 1 1, tile_of 6 7 1 2, tile_of 7 8 1 3,
     tile_of 8 9 2 0, tile_of 9 10 2 1, tile_of 10 11 2 2, tile_of 11 12 2 3,
     tile_of 12 13 3 0, tile_of 13 14 3 1, tile_of 14 15 3 3, tile_of 15 0 3 2]"

text \<open>The solved tiles with tile 15 lifted to the top left cell: one tile out of place.\<close>

definition misplaced_tiles :: "Tile list" where
  "misplaced_tiles =
    [tile_of 0 1 0 0, tile_of 1 2 0 1, tile_of 2 3 0 2, tile_of 3 4 0 3,
     tile_of 4 5 1 0, tile_of 5 6 1 1, tile_of 6 7 1 2, tile_of 7 8 1 3,
     tile_of 8 9 2 0, tile_of 9 10 2 1, tile_of 10 11 2 2, tile_of 11 12 2 3,
     tile_of 12 13 3 0, tile_of 13 14 3 1, tile_of 14 15 0 0, tile_of 15 0 3 3]"

section \<open>Properties of the solvability check\<close>

lemma inner_loop_eq:
  "inner_loop ws i j acc = acc + int (length (filter (\<lambda>y. ws ! i > y) (drop j ws)))"
proof (induction ws i j acc rule: inner_loop.induct)
  case (1 ws i j inversions)
  show ?case
  proof (cases "j < length ws")
    case True
    then have d: "drop j ws = ws ! j # drop (j + 1) ws"
      by (simp add: Cons_nth_drop_Suc)
    show ?thesis
      using True "1.IH" [OF True] by (subst inner_loop.simps) (simp add: d)
  next
    case False
    then show ?thesis by (subst inner_loop.simps) simp
  qed
qed

lemma outer_loop_eq:
  "outer_loop ws i acc = acc + int (inv_count (drop i ws))"
proof (induction ws i acc rule: outer_loop.induct)
  case (1 ws i inversions)
  show ?case
  proof (cases "i < length ws")
    case True
    then have d: "drop i ws = ws ! i # drop (i + 1) ws"
      by (simp add: Cons_nth_drop_Suc)
    show ?thesis
      using True "1.IH" [OF True]
      by (subst outer_loop.simps) (simp add: d inner_loop_eq)
  next
    case False
    then show ?thesis by (subst outer_loop.simps) simp
  qed
qed

lemma inv_pairs_Cons:
  "{(i, j). i < j \<and> j < length (x # xs) \<and> (x # xs) ! i > (x # xs) ! j}
   = (\<lambda>j. (0, Suc j)) ` {j. j < length xs \<and> x > xs ! j}
     \<union> (\<lambda>(i, j). (Suc i, Suc j)) ` {(i, j). i < j \<and> j < length xs \<and> xs ! i > xs ! j}"
  (is "?L = ?A \<union> ?B")
proof (rule set_eqI)
  fix p :: "nat \<times> nat"
  obtain i j where p: "p = (i, j)" by (cases p)
  show "p \<in> ?L \<longleftrightarrow> p \<in> ?A \<union> ?B"
  proof (cases i)
    case 0
    show ?thesis
    proof (cases j)
      case jz: 0
      show ?thesis using p 0 jz by auto
    next
      case (Suc j')
      show ?thesis using p 0 Suc by auto
    qed
  next
    case (Suc i')
    show ?thesis
    proof (cases j)
      case jz: 0
      show ?thesis using p Suc jz by auto
    next
      case js: (Suc j')
      show ?thesis using p Suc js by auto
    qed
  qed
qed

lemma finite_inv_pairs:
  "finite {(i, j). i < j \<and> j < length xs \<and> (xs :: int list) ! i > xs ! j}"
proof (rule finite_subset)
  show "{(i, j). i < j \<and> j < length xs \<and> xs ! i > xs ! j}
        \<subseteq> {..<length xs} \<times> {..<length xs}"
    by auto
qed simp

lemma inv_count_spec: "inv_count xs = inversions_spec xs"
proof (induction xs)
  case Nil
  then show ?case by (simp add: inversions_spec_def)
next
  case (Cons x xs)
  let ?A = "(\<lambda>j. (0::nat, Suc j)) ` {j. j < length xs \<and> x > xs ! j}"
  let ?S = "{(i, j). i < j \<and> j < length xs \<and> xs ! i > xs ! j}"
  let ?B = "(\<lambda>(i, j). (Suc i, Suc j)) ` ?S"
  have fA: "finite ?A" by simp
  have fB: "finite ?B" using finite_inv_pairs by (rule finite_imageI)
  have disj: "?A \<inter> ?B = {}" by auto
  have cA: "card ?A = length (filter (\<lambda>y. x > y) xs)"
  proof -
    have "card ?A = card {j. j < length xs \<and> x > xs ! j}"
      by (rule card_image) (simp add: inj_on_def)
    then show ?thesis by (simp add: length_filter_conv_card)
  qed
  have cB: "card ?B = card ?S"
    by (rule card_image) (auto simp: inj_on_def)
  have "inversions_spec (x # xs) = card (?A \<union> ?B)"
    unfolding inversions_spec_def inv_pairs_Cons ..
  also have "\<dots> = card ?A + card ?B"
    using fA fB disj by (rule card_Un_disjoint)
  finally show ?case
    using Cons.IH cA cB by (simp add: inversions_spec_def)
qed

lemma indexOf_from_nth:
  "distinct xs \<Longrightarrow> k < length xs \<Longrightarrow> xs ! k = v \<Longrightarrow> indexOf_from xs v n = n + int k"
proof (induction xs arbitrary: k n)
  case Nil
  then show ?case by simp
next
  case (Cons x xs)
  show ?case
  proof (cases k)
    case 0
    then show ?thesis using Cons.prems by simp
  next
    case (Suc k')
    then have "x \<noteq> v" using Cons.prems by auto
    moreover have "indexOf_from xs v (n + 1) = n + 1 + int k'"
      using Cons.prems Suc by (intro Cons.IH) auto
    ultimately show ?thesis using Suc by simp
  qed
qed

lemma indexOf_nth:
  "distinct xs \<Longrightarrow> k < length xs \<Longrightarrow> xs ! k = v \<Longrightarrow> indexOf xs v = int k"
  by (simp add: indexOf_def indexOf_from_nth)

lemma js_rem_2_nonneg: "0 \<le> a \<Longrightarrow> js_rem a 2 = a mod 2"
  by (cases "a = 0") (simp_all add: js_rem_def)

lemma outer_loop_inversions:
  "outer_loop ws 0 0 = int (inversions_spec ws)"
  by (simp add: outer_loop_eq inv_count_spec)

lemma isSolvable_at:
  assumes "distinct values" "k < 16" "k < length values" "values ! k = 0"
  shows "isSolvable values \<longleftrightarrow>
         (let inversions = inversions_spec (filter (\<lambda>v. v \<noteq> 0) values);
              emptyRowFromBottom = 4 - int k div 4
          in (even emptyRowFromBottom \<and> odd inversions)
             \<or> (odd emptyRowFromBottom \<and> even inversions))"
proof -
  have idx: "indexOf values 0 = int k"
    using assms by (simp add: indexOf_nth)
  have pos: "0 \<le> 4 - int k div 4"
    using assms(2) by linarith
  have r1: "js_rem (4 - int k div 4) 2 = (4 - int k div 4) mod 2"
    using pos by (rule js_rem_2_nonneg)
  have r2: "js_rem (int n) 2 = int n mod 2" for n
    by (rule js_rem_2_nonneg) simp
  have par: "(a mod 2 = 0 \<and> int n mod 2 = 1) \<or> (a mod 2 = 1 \<and> int n mod 2 = 0)
      \<longleftrightarrow> (even a \<and> odd n) \<or> (odd a \<and> even n)" for a :: int and n :: nat
    by presburger
  show ?thesis
    unfolding isSolvable_def Let_def EMPTY_TILE_VALUE_def GRID_SIZE_def idx
      outer_loop_inversions r1 r2 par ..
qed

lemma zero_in_full_sequence:
  assumes "length values = 16" "distinct values" "set values \<subseteq> {0..15::int}"
  shows "set values = {0..15}"
proof (rule card_subset_eq)
  show "finite {0..15::int}" by simp
  show "set values \<subseteq> {0..15}" by (rule assms(3))
  have "card (set values) = 16"
    using assms(1,2) by (simp add: distinct_card)
  then show "card (set values) = card {0..15::int}" by simp
qed

text \<open>
  Claim C1. For a sequence of 16 distinct values in \<open>[0, 15]\<close>, the value 0 stands at
  exactly one index \<open>k\<close>, and \<open>isSolvable\<close> returns true if and only if, with
  \<open>inversions\<close> the number of pairs \<open>i < j\<close> with \<open>values[i] > values[j]\<close> in the
  sequence without 0 and \<open>emptyRowFromBottom = 4 - k div 4\<close>, either
  \<open>emptyRowFromBottom\<close> is even and \<open>inversions\<close> is odd, or \<open>emptyRowFromBottom\<close> is
  odd and \<open>inversions\<close> is even.
\<close>

theorem isSolvable_parity_rule:
  assumes "length values = 16" "distinct values" "set values \<subseteq> {0..15}"
  shows "\<exists>k<16. values ! k = 0 \<and> (\<forall>k'<16. values ! k' = 0 \<longrightarrow> k' = k) \<and>
           (isSolvable values \<longleftrightarrow>
             (let inversions = inversions_spec (filter (\<lambda>v. v \<noteq> 0) values);
                  emptyRowFromBottom = 4 - int k div 4
              in (even emptyRowFromBottom \<and> odd inversions)
                 \<or> (odd emptyRowFromBottom \<and> even inversions)))"
proof -
  have "0 \<in> set values"
    using zero_in_full_sequence [OF assms] by simp
  then obtain k where k: "k < length values" "values ! k = 0"
    by (auto simp: in_set_conv_nth)
  have k16: "k < 16" using k(1) assms(1) by simp
  have uniq: "\<forall>k'<16. values ! k' = 0 \<longrightarrow> k' = k"
  proof (intro allI impI)
    fix k' assume "k' < 16" "values ! k' = 0"
    then have "k' < length values" "values ! k' = values ! k"
      using assms(1) k(2) by simp_all
    then show "k' = k"
      using assms(2) k(1) by (simp add: nth_eq_iff_index_eq)
  qed
  show ?thesis
    using k16 k(2) uniq isSolvable_at [OF assms(2) k16 k(1) k(2)] by blast
qed

text \<open>
  At the solved order \<open>1, \<dots>, 15, 0\<close> the hypotheses hold, \<open>isSolvable\<close> returns true, and
  the theorem yields an even inversion count.
\<close>

theorem isSolvable_parity_rule_witness:
  "length [1, 2, 3, 4, 5, 6, 7, 8, 9, 10, 11, 12, 13, 14, 15, 0 :: int] = 16
   \<and> distinct [1, 2, 3, 4, 5, 6, 7, 8, 9, 10, 11, 12, 13, 14, 15, 0 :: int]
   \<and> set [1, 2, 3, 4, 5, 6, 7, 8, 9, 10, 11, 12, 13, 14, 15, 0 :: int] \<subseteq> {0..15}
   \<and> isSolvable [1, 2, 3, 4, 5, 6, 7, 8, 9, 10, 11, 12, 13, 14, 15, 0]
   \<and> even (inversions_spec [1, 2, 3, 4, 5, 6, 7, 8, 9, 10, 11, 12, 13, 14, 15])"
proof -
  let ?vs = "[1, 2, 3, 4, 5, 6, 7, 8, 9, 10, 11, 12, 13, 14, 15, 0 :: int]"
  have h1: "length ?vs = 16" by simp
  have h2: "distinct ?vs" by simp
  have h3: "set ?vs \<subseteq> {0..15}" by simp
  have z: "?vs ! 15 = 0" by simp
  have s: "isSolvable ?vs"
    by (simp add: isSolvable_def outer_loop_eq js_rem_def indexOf_def
        EMPTY_TILE_VALUE_def GRID_SIZE_def)
  from isSolvable_parity_rule [OF h1 h2 h3] obtain k where
    k: "k < 16" "\<forall>k'<16. ?vs ! k' = 0 \<longrightarrow> k' = k"
    and iff: "isSolvable ?vs \<longleftrightarrow>
      (let inversions = inversions_spec (filter (\<lambda>v. v \<noteq> 0) ?vs);
           emptyRowFromBottom = 4 - int k div 4
       in (even emptyRowFromBottom \<and> odd inversions)
          \<or> (odd emptyRowFromBottom \<and> even inversions))"
    by blast
  have "k = 15" using k(2) [rule_format, of 15] z by simp
  then have "even (inversions_spec (filter (\<lambda>v. v \<noteq> 0) ?vs))"
    using iff s by (simp add: Let_def)
  then show ?thesis using h2 s by simp
qed

section \<open>Properties of shuffling\<close>

lemma shift_of_small: "N < 2 ^ 53 \<Longrightarrow> shift_of N = 0"
  by (subst shift_of.simps) simp

lemma shift_of_large: "\<not> N < 2 ^ 53 \<Longrightarrow> shift_of N = Suc (shift_of (N div 2))"
  by (subst shift_of.simps) simp

lemma shift_of_quotient: "N div 2 ^ shift_of N < 2 ^ 53"
proof (induction N rule: shift_of.induct)
  case (1 N)
  show ?case
  proof (cases "N < 2 ^ 53")
    case True
    then show ?thesis by (simp add: shift_of_small)
  next
    case False
    have "N div 2 ^ Suc (shift_of (N div 2)) = (N div 2) div 2 ^ shift_of (N div 2)"
      by (simp add: div_mult2_eq)
    then show ?thesis
      using "1.IH" [OF False] by (simp only: shift_of_large [OF False])
  qed
qed

lemma shift_of_leading: "\<not> N < 2 ^ 53 \<Longrightarrow> 2 ^ 52 * 2 ^ shift_of N \<le> N"
proof (induction N rule: shift_of.induct)
  case (1 N)
  have big: "\<not> N < 2 ^ 53" by (rule "1.prems")
  show ?case
  proof (cases "N div 2 < 2 ^ 53")
    case True
    then have "shift_of N = 1"
      using big by (simp add: shift_of_large shift_of_small)
    then show ?thesis using big by simp
  next
    case False
    have "2 ^ 52 * 2 ^ shift_of (N div 2) \<le> N div 2"
      using "1.IH" [OF big False] .
    then have "2 * (2 ^ 52 * 2 ^ shift_of (N div 2)) \<le> 2 * (N div 2)" by simp
    also have "\<dots> \<le> N" by simp
    finally show ?thesis by (simp add: shift_of_large [OF big])
  qed
qed

lemma round_product_small: "N < 2 ^ 53 \<Longrightarrow> round_product N = N"
  by (simp add: round_product_def shift_of_small)

lemma round_up_bounds:
  fixes q S r :: nat
  assumes "S \<le> 2 * r" "r < S"
  shows "2 * ((q + 1) * S) \<le> 2 * (q * S + r) + S"
    and "2 * (q * S + r) \<le> 2 * ((q + 1) * S) + S"
    and "q * S \<le> (q + 1) * S"
  using assms by (simp_all add: algebra_simps)

lemma round_down_bounds:
  fixes q S r :: nat
  assumes "2 * r \<le> S"
  shows "2 * (q * S) \<le> 2 * (q * S + r) + S"
    and "2 * (q * S + r) \<le> 2 * (q * S) + S"
  using assms by (simp_all add: algebra_simps)

lemma round_product_bounds:
  "2 * round_product N \<le> 2 * N + 2 ^ shift_of N"
  "2 * N \<le> 2 * round_product N + 2 ^ shift_of N"
  "N div 2 ^ shift_of N * 2 ^ shift_of N \<le> round_product N"
proof -
  define S :: nat where "S = 2 ^ shift_of N"
  define q where "q = N div S"
  define r where "r = N mod S"
  have N: "N = q * S + r" unfolding q_def r_def by (rule div_mult_mod_eq [symmetric])
  have r: "r < S" unfolding r_def S_def by simp
  have rp: "round_product N =
     (if 2 * r > S \<or> (2 * r = S \<and> odd q) then (q + 1) * S else q * S)"
    unfolding round_product_def Let_def q_def r_def S_def ..
  have "2 * round_product N \<le> 2 * N + S \<and> 2 * N \<le> 2 * round_product N + S
      \<and> q * S \<le> round_product N"
  proof (cases "2 * r > S \<or> (2 * r = S \<and> odd q)")
    case True
    then have e: "round_product N = (q + 1) * S" unfolding rp by (simp only: if_True)
    have h: "S \<le> 2 * r" using True by auto
    show ?thesis
      unfolding e using round_up_bounds [OF h r, of q, folded N] by blast
  next
    case False
    then have e: "round_product N = q * S" unfolding rp by (simp only: if_False)
    have h: "2 * r \<le> S" using False by auto
    show ?thesis
      unfolding e using round_down_bounds [OF h, of q, folded N] by blast
  qed
  then show "2 * round_product N \<le> 2 * N + 2 ^ shift_of N"
    "2 * N \<le> 2 * round_product N + 2 ^ shift_of N"
    "N div 2 ^ shift_of N * 2 ^ shift_of N \<le> round_product N"
    unfolding q_def S_def by simp_all
qed

lemma random_index_le:
  assumes "is_random_double r"
  shows "random_index r i \<le> i"
proof -
  define m where "m = fst r"
  define k where "k = snd r"
  define n where "n = i + 1"
  define N where "N = m * n"
  define R where "R = round_product N"
  define S :: nat where "S = 2 ^ shift_of N"
  have m: "m < 2 ^ 53" and k: "53 \<le> k"
    using assms by (simp_all add: is_random_double_def m_def k_def)
  have n: "1 \<le> n" by (simp add: n_def)
  have pk: "(2 :: nat) ^ 53 \<le> 2 ^ k" using k by (rule power_increasing) simp
  have "R < n * 2 ^ k"
  proof (cases "N < 2 ^ 53")
    case True
    then have "R = N" by (simp add: R_def round_product_small)
    then have "R < 2 ^ k" using True pk by simp
    also have "\<dots> \<le> n * 2 ^ k" using n by simp
    finally show ?thesis .
  next
    case False
    have f1: "2 ^ 52 * S \<le> N" unfolding S_def using False by (rule shift_of_leading)
    have f2: "2 * R \<le> 2 * N + S"
      unfolding R_def S_def by (rule round_product_bounds)
    have "(m + 1) * n \<le> 2 ^ 53 * n" using m by (intro mult_le_mono1) simp
    then have f3: "N + n \<le> 2 ^ 53 * n" by (simp add: N_def)
    have "S < 2 * n" using f1 f3 n by simp
    then have "R < 2 ^ 53 * n" using f2 f3 by simp
    also have "\<dots> \<le> 2 ^ k * n" using pk by (rule mult_le_mono1)
    finally show ?thesis by (simp add: mult.commute)
  qed
  then have "R div 2 ^ k < n" by (simp add: less_mult_imp_div_less)
  then show ?thesis
    by (simp add: random_index_def R_def N_def m_def k_def n_def)
qed

lemma random_index_attained:
  assumes "j \<le> i" "i < 2 ^ 32"
  shows "is_random_double ((2 * j + 1) * 2 ^ 52 div (i + 1), 53)"
    and "random_index ((2 * j + 1) * 2 ^ 52 div (i + 1), 53) i = j"
proof -
  define n where "n = i + 1"
  define a where "a = (2 * j + 1) * (2 :: nat) ^ 52"
  define m where "m = a div n"
  define N where "N = m * n"
  define R where "R = round_product N"
  define S :: nat where "S = 2 ^ shift_of N"
  have n: "1 \<le> n" "n \<le> 2 ^ 32" "j < n" using assms by (simp_all add: n_def)
  have "a = m * n + a mod n" unfolding m_def by simp
  moreover have "a mod n < n" using n(1) by simp
  ultimately have N1: "N \<le> a" and N2: "a < N + n" by (simp_all add: N_def)
  have a1: "a < 2 ^ 53 * n" using n(3) by (simp add: a_def)
  have "m * n < 2 ^ 53 * n" using N1 a1 unfolding N_def by (rule le_less_trans)
  then have m: "m < 2 ^ 53" by (simp only: mult_less_cancel2)
  show "is_random_double ((2 * j + 1) * 2 ^ 52 div (i + 1), 53)"
    using m by (simp add: is_random_double_def m_def a_def n_def)
  have S: "S \<le> 2 * j + 1"
  proof (cases "N < 2 ^ 53")
    case True
    then show ?thesis by (simp add: S_def shift_of_small)
  next
    case False
    have "2 ^ 52 * S \<le> N" unfolding S_def using False by (rule shift_of_leading)
    then have "2 ^ 52 * S \<le> 2 ^ 52 * (2 * j + 1)" using N1 by (simp add: a_def)
    then show ?thesis by simp
  qed
  have f2: "2 * R \<le> 2 * N + S" and f3: "2 * N \<le> 2 * R + S"
    unfolding R_def S_def by (rule round_product_bounds)+
  have lo: "2 ^ 53 * j \<le> R"
    using f3 S N2 n(2,3) by (simp add: a_def)
  have hi: "R < 2 ^ 53 * Suc j"
    using f2 S N1 n(2,3) by (simp add: a_def)
  have "R div 2 ^ 53 = j" using lo hi by (rule div_nat_eqI)
  then show "random_index ((2 * j + 1) * 2 ^ 52 div (i + 1), 53) i = j"
    by (simp add: random_index_def R_def N_def m_def a_def n_def)
qed

lemma random_index_product:
  assumes "is_random_double r" "i < 2 ^ 32"
  shows "fst r * (i + 1) < (random_index r i + 1) * 2 ^ snd r"
    and "random_index r i * 2 ^ snd r * 2 ^ 53 \<le> fst r * (i + 1) * (2 ^ 53 + 1)"
proof -
  define m where "m = fst r"
  define k where "k = snd r"
  define n where "n = i + 1"
  define N where "N = m * n"
  define R where "R = round_product N"
  define s where "s = shift_of N"
  define S :: nat where "S = 2 ^ s"
  define j where "j = R div 2 ^ k"
  have m: "m < 2 ^ 53" and k: "53 \<le> k"
    using assms by (simp_all add: is_random_double_def m_def k_def)
  have n: "1 \<le> n" "n \<le> 2 ^ 32" using assms(2) by (simp_all add: n_def)
  have j1: "j * 2 ^ k \<le> R" unfolding j_def by simp
  have "R mod 2 ^ k < 2 ^ k" by simp
  moreover have "R = R div 2 ^ k * 2 ^ k + R mod 2 ^ k"
    by (rule div_mult_mod_eq [symmetric])
  ultimately have "R < R div 2 ^ k * 2 ^ k + 2 ^ k" by linarith
  then have j2: "R < (j + 1) * 2 ^ k" by (simp add: j_def)
  have f2: "2 * R \<le> 2 * N + S" and f3: "2 * N \<le> 2 * R + S"
    and f4: "N div S * S \<le> R"
    unfolding R_def S_def s_def by (rule round_product_bounds)+
  have upper: "j * 2 ^ k * 2 ^ 53 \<le> N * (2 ^ 53 + 1)"
  proof -
    have "2 ^ 53 * R \<le> N * (2 ^ 53 + 1)"
    proof (cases "N < 2 ^ 53")
      case True
      then have "R = N" by (simp add: R_def round_product_small)
      then show ?thesis by simp
    next
      case False
      have "2 ^ 52 * S \<le> N" unfolding S_def s_def using False by (rule shift_of_leading)
      then show ?thesis using f2 by simp
    qed
    moreover have "j * 2 ^ k * 2 ^ 53 \<le> R * 2 ^ 53" using j1 by (rule mult_le_mono1)
    ultimately show ?thesis by (simp add: mult.commute)
  qed
  have lower: "N < (j + 1) * 2 ^ k"
  proof (rule ccontr)
    assume "\<not> N < (j + 1) * 2 ^ k"
    then have U: "(j + 1) * 2 ^ k \<le> N" by simp
    have "(j + 1) * 2 ^ k \<le> R"
    proof (cases "N < 2 ^ 53")
      case True
      then have "R = N" by (simp add: R_def round_product_small)
      then show ?thesis using U by simp
    next
      case False
      have f1: "2 ^ 52 * S \<le> N" unfolding S_def s_def using False by (rule shift_of_leading)
      have "N < 2 ^ 53 * n" unfolding N_def using m n(1) by simp
      then have "S < 2 ^ 33" using f1 n(2) by simp
      then have "s < 33" unfolding S_def by (simp only: power_strict_increasing_iff rel_simps)
      then have sk: "s \<le> k" using k by simp
      have "(2 :: nat) ^ k = 2 ^ (k - s) * 2 ^ s"
        using sk by (simp add: power_add [symmetric])
      then have e: "(j + 1) * 2 ^ k = (j + 1) * 2 ^ (k - s) * S"
        by (simp only: S_def mult.assoc)
      have "0 < S" by (simp add: S_def)
      then have "(j + 1) * 2 ^ (k - s) \<le> N div S"
        using U unfolding e by (simp add: less_eq_div_iff_mult_less_eq)
      then have "(j + 1) * 2 ^ (k - s) * S \<le> N div S * S" by (rule mult_le_mono1)
      then have "(j + 1) * 2 ^ (k - s) * S \<le> R" using f4 by (rule order_trans)
      then show ?thesis by (simp only: e)
    qed
    then show False using j2 by simp
  qed
  show "fst r * (i + 1) < (random_index r i + 1) * 2 ^ snd r"
    using lower by (simp add: random_index_def j_def R_def N_def m_def k_def n_def)
  show "random_index r i * 2 ^ snd r * 2 ^ 53 \<le> fst r * (i + 1) * (2 ^ 53 + 1)"
    using upper by (simp add: random_index_def j_def R_def N_def m_def k_def n_def)
qed

lemma random_index_near_floor:
  assumes "is_random_double r" "i < 2 ^ 32"
  shows "random_value r * real (i + 1) < real (random_index r i) + 1"
    and "real (random_index r i) \<le> random_value r * real (i + 1) * (1 + 1 / 2 ^ 53)"
proof -
  note p = random_index_product [OF assms]
  have pos: "(0 :: real) < 2 ^ snd r" by simp
  have "real (fst r * (i + 1)) < real ((random_index r i + 1) * 2 ^ snd r)"
    using p(1) by (simp only: of_nat_less_iff)
  then have "real (fst r) * real (i + 1) < (real (random_index r i) + 1) * 2 ^ snd r"
    by (simp add: algebra_simps)
  then have "real (fst r) * real (i + 1) / 2 ^ snd r < real (random_index r i) + 1"
    using pos by (simp add: divide_less_eq)
  then show "random_value r * real (i + 1) < real (random_index r i) + 1"
    by (simp add: random_value_def)
  have "real (random_index r i * 2 ^ snd r * 2 ^ 53) \<le> real (fst r * (i + 1) * (2 ^ 53 + 1))"
    using p(2) by (simp only: of_nat_le_iff)
  then have "real (random_index r i) * 2 ^ snd r * 2 ^ 53
      \<le> real (fst r) * real (i + 1) * (2 ^ 53 + 1)"
    by (simp add: algebra_simps)
  then have "real (random_index r i) * 2 ^ snd r
      \<le> real (fst r) * real (i + 1) * (2 ^ 53 + 1) / 2 ^ 53"
    by (simp add: le_divide_eq)
  then have "real (random_index r i)
      \<le> real (fst r) * real (i + 1) * (2 ^ 53 + 1) / 2 ^ 53 / 2 ^ snd r"
    using pos by (simp add: le_divide_eq)
  then show "real (random_index r i) \<le> random_value r * real (i + 1) * (1 + 1 / 2 ^ 53)"
    by (simp add: random_value_def field_simps)
qed

lemma swap_mset: "i < length xs \<Longrightarrow> j < length xs \<Longrightarrow> mset (swap i j xs) = mset xs"
  unfolding swap_def by (rule mset_swap)

lemma swap_length: "length (swap i j xs) = length xs"
  by (simp add: swap_def)

lemma shuffle_loop_perm:
  "random_ok rnd \<Longrightarrow> i < length array \<Longrightarrow>
   mset (fst (shuffle_loop rnd n array i)) = mset array
   \<and> snd (shuffle_loop rnd n array i) = n + i"
proof (induction rnd n array i rule: shuffle_loop.induct)
  case (1 rnd n array i)
  show ?case
  proof (cases "i > 0")
    case True
    let ?j = "random_index (rnd n) i"
    have j: "?j \<le> i"
      using "1.prems"(1) by (simp add: random_ok_def random_index_le)
    have "mset (fst (shuffle_loop rnd (n + 1) (swap i ?j array) (i - 1))) = mset (swap i ?j array)
      \<and> snd (shuffle_loop rnd (n + 1) (swap i ?j array) (i - 1)) = n + 1 + (i - 1)"
      using "1.prems" True by (intro "1.IH") (simp_all add: swap_length)
    moreover have "mset (swap i ?j array) = mset array"
      using j "1.prems"(2) by (intro swap_mset) simp_all
    ultimately show ?thesis
      using True by (subst (1 2) shuffle_loop.simps) (simp add: Let_def)
  next
    case False
    then show ?thesis by (subst (1 2) shuffle_loop.simps) simp
  qed
qed

lemma shuffleArray_perm:
  assumes "random_ok rnd"
  shows "mset (fst (shuffleArray rnd n array)) = mset array"
    and "snd (shuffleArray rnd n array) = n + (length array - 1)"
proof -
  show "mset (fst (shuffleArray rnd n array)) = mset array"
  proof (cases "array = []")
    case True
    then show ?thesis
      unfolding shuffleArray_def by (subst shuffle_loop.simps) simp
  next
    case False
    then show ?thesis
      unfolding shuffleArray_def using assms by (intro shuffle_loop_perm [THEN conjunct1]) simp_all
  qed
  show "snd (shuffleArray rnd n array) = n + (length array - 1)"
  proof (cases "array = []")
    case True
    then show ?thesis
      unfolding shuffleArray_def by (subst shuffle_loop.simps) simp
  next
    case False
    then show ?thesis
      unfolding shuffleArray_def using assms by (intro shuffle_loop_perm [THEN conjunct2]) simp_all
  qed
qed

lemma shuffle_loop_0: "shuffle_loop rnd n array 0 = (array, n)"
  by (subst shuffle_loop.simps) simp

lemma shuffle_loop_Suc:
  "shuffle_loop rnd n array (Suc i)
   = shuffle_loop rnd (n + 1) (swap (Suc i) (random_index (rnd n) (Suc i)) array) i"
  by (subst shuffle_loop.simps) (simp add: Let_def)

lemma shuffle_loop_pos:
  "0 < i \<Longrightarrow> shuffle_loop rnd n array i
     = shuffle_loop rnd (n + 1) (swap i (random_index (rnd n) i) array) (i - 1)"
  by (subst shuffle_loop.simps) (simp add: Let_def)

lemma list_update_Cons_pos: "0 < i \<Longrightarrow> (x # xs)[i := y] = x # xs[i - 1 := y]"
  by (cases i) simp_all

lemmas shuffle_eval =
  shuffleArray_def shuffle_loop_0 shuffle_loop_pos swap_def list_update_Cons_pos
  random_index_def round_product_def shift_of_large shift_of_small

text \<open>
  Claim C9. \<open>shuffleArray\<close> is the Fisher--Yates shuffle: the loop runs from the last
  index down to 1 and draws one random number per index; at index \<open>i\<close> it swaps
  elements \<open>i\<close> and \<open>j\<close>, where \<open>j\<close> is the floor of the double product of the
  random number and \<open>i + 1\<close>. For every double of \<open>[0, 1)\<close> this \<open>j\<close> lies in
  \<open>[0, i]\<close>; every index of \<open>[0, i]\<close>, the index \<open>i\<close> itself included, is drawn for some
  double; and \<open>j\<close> is the floor of the exact product \<open>r * (i + 1)\<close>, or the next integer
  when the exact product is within the rounding error \<open>1 / 2 ^ 53\<close> below it, so each
  index is drawn on an interval of random numbers of length \<open>1 / (i + 1)\<close> up to that
  rounding. For every array and every random source the result is a rearrangement of
  the input.
\<close>

theorem shuffleArray_fisher_yates:
  assumes "random_ok rnd"
  shows "mset (fst (shuffleArray rnd n array)) = mset array
    \<and> length (fst (shuffleArray rnd n array)) = length array
    \<and> snd (shuffleArray rnd n array) = n + (length array - 1)
    \<and> shuffleArray rnd n array = shuffle_loop rnd n array (length array - 1)
    \<and> (\<forall>m a. shuffle_loop rnd m a 0 = (a, m))
    \<and> (\<forall>m a i. shuffle_loop rnd m a (Suc i)
           = shuffle_loop rnd (m + 1) (swap (Suc i) (random_index (rnd m) (Suc i)) a) i)
    \<and> (\<forall>m i. random_index (rnd m) i \<le> i)
    \<and> (\<forall>i j. j \<le> i \<and> i < 2 ^ 32 \<longrightarrow>
          (\<exists>r. is_random_double r \<and> random_index r i = j))
    \<and> (\<forall>r i. is_random_double r \<and> i < 2 ^ 32 \<longrightarrow>
          random_value r * real (i + 1) < real (random_index r i) + 1
          \<and> real (random_index r i) \<le> random_value r * real (i + 1) * (1 + 1 / 2 ^ 53))"
proof -
  have m: "mset (fst (shuffleArray rnd n array)) = mset array"
    using assms by (rule shuffleArray_perm)
  have l: "length (fst (shuffleArray rnd n array)) = length array"
    using m by (rule mset_eq_length)
  have c: "snd (shuffleArray rnd n array) = n + (length array - 1)"
    using assms by (rule shuffleArray_perm)
  have r: "\<forall>m i. random_index (rnd m) i \<le> i"
    using assms by (simp add: random_ok_def random_index_le)
  have a: "\<forall>i j. j \<le> i \<and> i < 2 ^ 32 \<longrightarrow>
          (\<exists>r. is_random_double r \<and> random_index r i = j)"
    using random_index_attained by blast
  have f: "\<forall>r i. is_random_double r \<and> i < 2 ^ 32 \<longrightarrow>
          random_value r * real (i + 1) < real (random_index r i) + 1
          \<and> real (random_index r i) \<le> random_value r * real (i + 1) * (1 + 1 / 2 ^ 53)"
    using random_index_near_floor by blast
  have d: "shuffleArray rnd n array = shuffle_loop rnd n array (length array - 1)"
    by (simp add: shuffleArray_def)
  show ?thesis
    using m l c d r a f shuffle_loop_0 shuffle_loop_Suc by blast
qed

text \<open>
  With every random number equal to \<open>1 / 2\<close> the array \<open>10, 20, 30, 40\<close> becomes
  \<open>10, 40, 20, 30\<close>. The double \<open>6004799503160661 / 2 ^ 53\<close>, just below \<open>2 / 3\<close>, draws
  index 2 at \<open>i = 2\<close>: the product rounds to \<open>2\<close>.
\<close>

theorem shuffleArray_fisher_yates_witness:
  "random_ok (\<lambda>n. (2 ^ 52, 53))
   \<and> random_value (2 ^ 52, 53) = 1 / 2
   \<and> shuffleArray (\<lambda>n. (2 ^ 52, 53)) 0 [10, 20, 30, 40] = ([10, 40, 20, 30], 3)
   \<and> mset [10, 40, 20, 30] = mset [10, 20, 30, 40 :: int]
   \<and> random_index (2 ^ 52, 53) 3 = 2
   \<and> is_random_double (6004799503160661, 53)
   \<and> random_index (6004799503160661, 53) 2 = 2
   \<and> random_value (6004799503160661, 53) * real (2 + 1) < 2"
proof -
  have ok: "random_ok (\<lambda>n. (2 ^ 52, 53))"
    by (simp add: random_ok_def is_random_double_def)
  have rv: "random_value (2 ^ 52, 53) = 1 / 2"
    by (simp add: random_value_def)
  have ri: "random_index (2 ^ 52, 53) 3 = 2"
    by (simp add: random_index_def round_product_def shift_of_large shift_of_small)
  have ev: "shuffleArray (\<lambda>n. (2 ^ 52, 53)) 0 [10, 20, 30, 40] = ([10, 40, 20, 30], 3)"
    by (simp add: shuffle_eval)
  have rd: "is_random_double (6004799503160661, 53)"
    by (simp add: is_random_double_def)
  have r2: "random_index (6004799503160661, 53) 2 = 2"
    by (simp add: random_index_def round_product_def shift_of_large shift_of_small)
  have below: "random_value (6004799503160661, 53) * real (2 + 1) < 2"
    by (simp add: random_value_def)
  note t = shuffleArray_fisher_yates [OF ok, of 0 "[10, 20, 30, 40]"]
  have "mset (fst (shuffleArray (\<lambda>n. (2 ^ 52, 53)) 0 [10, 20, 30, 40])) = mset [10, 20, 30, 40]"
    using t by blast
  then have ms: "mset [10, 40, 20, 30] = mset [10, 20, 30, 40 :: int]"
    unfolding ev by simp
  show ?thesis
    using ok rv ev ms ri rd r2 below by blast
qed

section \<open>Properties of a new game\<close>

lemma shuffle_until_solvable_sound:
  assumes "shuffle_until_solvable rnd n vals = Some vs" and "random_ok rnd"
  shows "isSolvable vs \<and> mset vs = mset vals"
proof -
  have "random_ok rnd \<longrightarrow> isSolvable vs \<and> mset vs = mset vals"
  proof (rule shuffle_until_solvable.raw_induct
      [where P = "\<lambda>rnd n vals vs. random_ok rnd \<longrightarrow> isSolvable vs \<and> mset vs = mset vals",
        OF _ assms(1)])
    fix f :: "random_source \<Rightarrow> nat \<Rightarrow> int list \<Rightarrow> int list option"
    fix rnd n vals vs
    assume IH: "\<And>rnd n vals y. f rnd n vals = Some y \<Longrightarrow>
                 random_ok rnd \<longrightarrow> isSolvable y \<and> mset y = mset vals"
      and eq: "(case shuffleArray rnd n vals of
                 (values', n') \<Rightarrow>
                   if \<not> isSolvable values' then f rnd n' values' else Some values') = Some vs"
    show "random_ok rnd \<longrightarrow> isSolvable vs \<and> mset vs = mset vals"
    proof
      assume ok: "random_ok rnd"
      obtain values' n' where sh: "shuffleArray rnd n vals = (values', n')"
        by (cases "shuffleArray rnd n vals")
      have m: "mset values' = mset vals"
        using shuffleArray_perm(1) [OF ok, of n vals] sh by simp
      show "isSolvable vs \<and> mset vs = mset vals"
      proof (cases "isSolvable values'")
        case True
        then have "vs = values'" using eq sh by simp
        then show ?thesis using True m by simp
      next
        case False
        then have "f rnd n' values' = Some vs" using eq sh by simp
        then have "isSolvable vs \<and> mset vs = mset values'"
          using IH ok by blast
        then show ?thesis using m by simp
      qed
    qed
  qed
  then show ?thesis using assms(2) by simp
qed

lemma mset_eq_mset_set_iff:
  assumes "finite A"
  shows "mset xs = mset_set A \<longleftrightarrow> distinct xs \<and> set xs = A"
proof
  assume e: "mset xs = mset_set A"
  have "set xs = set_mset (mset xs)" by simp
  also have "\<dots> = A" unfolding e using assms by simp
  finally have s: "set xs = A" .
  have "count (mset xs) x \<le> 1" for x
    unfolding e using assms by (cases "x \<in> A") simp_all
  then have "distinct xs"
    by (simp add: distinct_count_atmost_1 le_Suc_eq)
  then show "distinct xs \<and> set xs = A" using s by simp
next
  assume "distinct xs \<and> set xs = A"
  then show "mset xs = mset_set A"
    using mset_set_set [of xs] by simp
qed

lemma finite_grid_cells: "finite grid_cells"
  by (simp add: grid_cells_def)

lemma board_inv_iff:
  "board_inv ts \<longleftrightarrow>
     distinct (map position ts) \<and> set (map position ts) = grid_cells
     \<and> distinct (map value_t ts) \<and> set (map value_t ts) = {0..<16}"
proof -
  have f: "finite {0..<16::int}" by simp
  show ?thesis
    unfolding board_inv_def GRID_SIZE_def
    using mset_eq_mset_set_iff [OF finite_grid_cells, of "map position ts"]
      mset_eq_mset_set_iff [OF f, of "map value_t ts"]
    by simp
qed

lemma int_range4: "{0..<4::int} = {0, 1, 2, 3}"
  by auto

lemma cells16:
  "map cell_of [0..<16] =
    [\<lparr>row = 0, col = 0\<rparr>, \<lparr>row = 0, col = 1\<rparr>, \<lparr>row = 0, col = 2\<rparr>, \<lparr>row = 0, col = 3\<rparr>,
     \<lparr>row = 1, col = 0\<rparr>, \<lparr>row = 1, col = 1\<rparr>, \<lparr>row = 1, col = 2\<rparr>, \<lparr>row = 1, col = 3\<rparr>,
     \<lparr>row = 2, col = 0\<rparr>, \<lparr>row = 2, col = 1\<rparr>, \<lparr>row = 2, col = 2\<rparr>, \<lparr>row = 2, col = 3\<rparr>,
     \<lparr>row = 3, col = 0\<rparr>, \<lparr>row = 3, col = 1\<rparr>, \<lparr>row = 3, col = 2\<rparr>, \<lparr>row = 3, col = 3\<rparr>]"
  by (simp add: cell_of_def GRID_SIZE_def upt_rec)

lemma grid_cells_eq: "grid_cells = set (map cell_of [0..<16])"
  unfolding cells16 by (auto simp: grid_cells_def GRID_SIZE_def int_range4)

lemma distinct_cells: "distinct (map cell_of [0..<16])"
  unfolding cells16 by simp

lemma cell_index_cell_of: "cell_index (cell_of i) = i"
  by (simp add: cell_index_def cell_of_def GRID_SIZE_def)

lemma grid_cells_index:
  assumes "p \<in> grid_cells"
  shows "cell_index p < 16" and "cell_of (cell_index p) = p"
proof -
  obtain i where i: "i < 16" "p = cell_of i"
    using assms unfolding grid_cells_eq by auto
  show "cell_index p < 16" using i by (simp add: cell_index_cell_of)
  show "cell_of (cell_index p) = p" using i by (simp add: cell_index_cell_of)
qed

lemma cell_of_in_grid: "i < 16 \<Longrightarrow> cell_of i \<in> grid_cells"
  unfolding grid_cells_eq by simp

lemma newTiles_positions: "map position (newTiles vs) = map cell_of [0..<length vs]"
proof -
  have "js_rem (int i) 4 = int i mod 4" for i
    by (cases "i = 0") (simp_all add: js_rem_def)
  then show ?thesis
    by (simp add: newTiles_def cell_of_def GRID_SIZE_def)
qed

lemma newTiles_values: "map value_t (newTiles vs) = vs"
  by (simp add: newTiles_def comp_def map_nth)

lemma mset_canonical: "mset (map int [0..<16]) = mset_set {0..<16::int}"
proof -
  have "distinct (map int [0..<16])" by (simp add: distinct_map)
  moreover have "set (map int [0..<16]) = {0..<16::int}"
    by (auto simp: image_iff) (metis atLeastLessThan_iff nat_less_iff nat_0_le zero_le of_nat_numeral nat_int of_nat_nat int_nat_eq)
  ultimately show ?thesis using mset_set_set by metis
qed

lemma board_inv_newTiles:
  assumes "mset vs = mset (map int [0..<16])"
  shows "board_inv (newTiles vs)"
proof -
  have len: "length vs = 16"
    using mset_eq_length [OF assms] by simp
  have "mset (map position (newTiles vs)) = mset_set grid_cells"
    unfolding newTiles_positions len grid_cells_eq
    using mset_set_set [OF distinct_cells] by (rule sym)
  moreover have "mset (map value_t (newTiles vs)) = mset_set {0..<GRID_SIZE * GRID_SIZE}"
    unfolding newTiles_values assms mset_canonical by (simp add: GRID_SIZE_def)
  ultimately show ?thesis by (simp only: board_inv_def)
qed

lemma those_map_Some: "those (map Some xs) = Some xs"
  by (induction xs) simp_all

lemma find_position:
  assumes "distinct (map position ts)" "t \<in> set ts"
  shows "find (\<lambda>tile. position tile = position t) ts = Some t"
  using assms
proof (induction ts)
  case Nil
  then show ?case by simp
next
  case (Cons a ts)
  show ?case
  proof (cases "a = t")
    case True
    then show ?thesis by simp
  next
    case False
    then have "t \<in> set ts" using Cons.prems by simp
    moreover have "position a \<noteq> position t"
      using Cons.prems \<open>t \<in> set ts\<close> by auto
    ultimately show ?thesis using Cons by simp
  qed
qed

lemma valueAt_tile:
  "distinct (map position ts) \<Longrightarrow> t \<in> set ts \<Longrightarrow> valueAt ts (position t) = Some (value_t t)"
  by (simp add: valueAt_def find_position)

lemma board_tile_at:
  assumes "board_inv ts" "i < 16"
  shows "\<exists>t\<in>set ts. position t = cell_of i"
proof -
  have "cell_of i \<in> set (map position ts)"
    using assms cell_of_in_grid by (simp only: board_inv_iff)
  then show ?thesis by auto
qed

lemma linear_values_board:
  assumes "board_inv ts"
  shows "linear_values ts = Some (map (\<lambda>i. the (valueAt ts (cell_of i))) [0..<16])"
proof -
  have d: "distinct (map position ts)" using assms by (simp only: board_inv_iff)
  have "valueAt ts (cell_of i) = Some (the (valueAt ts (cell_of i)))" if lt: "i < 16" for i
  proof -
    obtain t where "t \<in> set ts" "position t = cell_of i"
      using board_tile_at [OF assms lt] by blast
    then show ?thesis using valueAt_tile [OF d, of t] by simp
  qed
  then have m: "map (\<lambda>i. valueAt ts (cell_of i)) [0..<16]
             = map Some (map (\<lambda>i. the (valueAt ts (cell_of i))) [0..<16])"
    by simp
  have n: "nat (GRID_SIZE * GRID_SIZE) = 16" by (simp add: GRID_SIZE_def)
  show ?thesis
    unfolding linear_values_def n m by (rule those_map_Some)
qed

lemma linear_values_char:
  assumes "board_inv ts"
  shows "linear_values ts = Some vs \<longleftrightarrow>
         length vs = 16 \<and> (\<forall>t\<in>set ts. vs ! cell_index (position t) = value_t t)"
proof -
  have d: "distinct (map position ts)" using assms by (simp only: board_inv_iff)
  have g: "set (map position ts) = grid_cells" using assms by (simp only: board_inv_iff)
  let ?ws = "map (\<lambda>i. the (valueAt ts (cell_of i))) [0..<16]"
  have ws: "?ws ! cell_index (position t) = value_t t" if "t \<in> set ts" for t
  proof -
    have "position t \<in> grid_cells" using g that by auto
    then have "cell_index (position t) < 16" "cell_of (cell_index (position t)) = position t"
      by (rule grid_cells_index)+
    then show ?thesis using valueAt_tile [OF d that] by simp
  qed
  show ?thesis
  proof
    assume "linear_values ts = Some vs"
    then have "vs = ?ws" using linear_values_board [OF assms] by simp
    then show "length vs = 16 \<and> (\<forall>t\<in>set ts. vs ! cell_index (position t) = value_t t)"
      using ws by simp
  next
    assume a: "length vs = 16 \<and> (\<forall>t\<in>set ts. vs ! cell_index (position t) = value_t t)"
    have "vs = ?ws"
    proof (rule nth_equalityI)
      show "length vs = length ?ws" using a by simp
    next
      fix i assume "i < length vs"
      then have i: "i < 16" using a by simp
      obtain t where t: "t \<in> set ts" "position t = cell_of i"
        using board_tile_at [OF assms i] by blast
      have "vs ! i = value_t t"
        using a t by (metis cell_index_cell_of)
      moreover have "?ws ! i = value_t t"
        using ws [OF t(1)] t(2) by (simp only: cell_index_cell_of)
      ultimately show "vs ! i = ?ws ! i" by simp
    qed
    then show "linear_values ts = Some vs"
      using linear_values_board [OF assms] by simp
  qed
qed

lemma linear_values_newTiles:
  assumes "mset vs = mset (map int [0..<16])"
  shows "linear_values (newTiles vs) = Some vs"
proof -
  have len: "length vs = 16"
    using mset_eq_length [OF assms] by simp
  have b: "board_inv (newTiles vs)" using assms by (rule board_inv_newTiles)
  have "vs ! cell_index (position t) = value_t t" if mem: "t \<in> set (newTiles vs)" for t
  proof -
    obtain i where i: "i < length (newTiles vs)" "t = newTiles vs ! i"
      using mem by (auto simp: in_set_conv_nth)
    have li: "i < length vs" using i(1) by (simp add: newTiles_def)
    have "position t = map position (newTiles vs) ! i" using i by simp
    then have p: "position t = cell_of i"
      unfolding newTiles_positions using li by simp
    have "value_t t = map value_t (newTiles vs) ! i" using i by simp
    then have "value_t t = vs ! i" unfolding newTiles_values .
    then show ?thesis using p by (simp add: cell_index_cell_of)
  qed
  then show ?thesis
    using len by (simp add: linear_values_char [OF b])
qed

lemma initializeGame_Some:
  assumes "initializeGame rnd st = Some st'"
  obtains vs where "shuffle_until_solvable rnd 0 (map int [0..<16]) = Some vs"
    and "st' = st\<lparr>tiles := newTiles vs, isWon := False, moveCount := 0, time := 0,
                   isRunning := True\<rparr>"
  using assms by (auto simp: initializeGame_def GRID_SIZE_def split: option.splits)

lemma isSolvable_canonical_order:
  "\<not> isSolvable [0, 1, 2, 3, 4, 5, 6, 7, 8, 9, 10, 11, 12, 13, 14, 15]"
  by (simp add: isSolvable_def outer_loop_eq js_rem_def indexOf_def
      EMPTY_TILE_VALUE_def GRID_SIZE_def)

lemma isSolvable_solved_order:
  "isSolvable [1, 2, 3, 4, 5, 6, 7, 8, 9, 10, 11, 12, 13, 14, 15, 0]"
  by (simp add: isSolvable_def outer_loop_eq js_rem_def indexOf_def
      EMPTY_TILE_VALUE_def GRID_SIZE_def)

lemma canonical16: "map int [0..<16] = [0, 1, 2, 3, 4, 5, 6, 7, 8, 9, 10, 11, 12, 13, 14, 15]"
  by (simp add: upt_rec)

lemma shuffle_identity:
  "shuffleArray (\<lambda>n. if n < 15 then (63 * 2 ^ 47, 53) else (0, 53)) 0
     [0, 1, 2, 3, 4, 5, 6, 7, 8, 9, 10, 11, 12, 13, 14, 15]
   = ([0, 1, 2, 3, 4, 5, 6, 7, 8, 9, 10, 11, 12, 13, 14, 15], 15)"
  by (simp add: shuffle_eval)

lemma shuffle_rotation:
  "shuffleArray (\<lambda>n. if n < 15 then (63 * 2 ^ 47, 53) else (0, 53)) 15
     [0, 1, 2, 3, 4, 5, 6, 7, 8, 9, 10, 11, 12, 13, 14, 15]
   = ([1, 2, 3, 4, 5, 6, 7, 8, 9, 10, 11, 12, 13, 14, 15, 0], 30)"
  by (simp add: shuffle_eval)

lemma second_shuffle_accepted:
  "shuffle_until_solvable (\<lambda>n. if n < 15 then (63 * 2 ^ 47, 53) else (0, 53)) 0 (map int [0..<16])
   = Some [1, 2, 3, 4, 5, 6, 7, 8, 9, 10, 11, 12, 13, 14, 15, 0]"
  unfolding canonical16
  apply (subst shuffle_until_solvable.simps)
  apply (simp only: shuffle_identity prod.case isSolvable_canonical_order not_False_eq_True if_True)
  apply (subst shuffle_until_solvable.simps)
  apply (simp only: shuffle_rotation prod.case isSolvable_solved_order not_True_eq_False if_False)
  done

lemma shuffle_identity_always:
  "shuffleArray (\<lambda>n. (63 * 2 ^ 47, 53)) n [0, 1, 2, 3, 4, 5, 6, 7, 8, 9, 10, 11, 12, 13, 14, 15]
   = ([0, 1, 2, 3, 4, 5, 6, 7, 8, 9, 10, 11, 12, 13, 14, 15], n + 15)"
  by (simp add: shuffle_eval)

text \<open>
  The loop need not end: with every random number equal to \<open>63 / 64\<close> each draw is the
  index \<open>i\<close> itself, the order of the array never changes, and the initial order is not
  accepted.
\<close>

lemma shuffle_until_solvable_may_diverge:
  "shuffle_until_solvable (\<lambda>n. (63 * 2 ^ 47, 53)) n
     [0, 1, 2, 3, 4, 5, 6, 7, 8, 9, 10, 11, 12, 13, 14, 15] = None"
proof (rule ccontr)
  let ?c = "[0, 1, 2, 3, 4, 5, 6, 7, 8, 9, 10, 11, 12, 13, 14, 15 :: int]"
  let ?r = "(\<lambda>n. (63 * 2 ^ 47, 53)) :: random_source"
  assume "shuffle_until_solvable (\<lambda>n. (63 * 2 ^ 47, 53)) n ?c \<noteq> None"
  then obtain y where y: "shuffle_until_solvable ?r n ?c = Some y" by auto
  have "?r = ?r \<and> ?c = ?c \<longrightarrow> False"
  proof (rule shuffle_until_solvable.raw_induct
      [where P = "\<lambda>rnd n vals y. rnd = ?r \<and> vals = ?c \<longrightarrow> False", OF _ y])
    fix f :: "random_source \<Rightarrow> nat \<Rightarrow> int list \<Rightarrow> int list option"
    fix rnd n vals vs
    assume IH: "\<And>rnd n vals y. f rnd n vals = Some y \<Longrightarrow>
                 rnd = ?r \<and> vals = ?c \<longrightarrow> False"
      and eq: "(case shuffleArray rnd n vals of
                 (values', n') \<Rightarrow>
                   if \<not> isSolvable values' then f rnd n' values' else Some values') = Some vs"
    show "rnd = ?r \<and> vals = ?c \<longrightarrow> False"
    proof
      assume a: "rnd = ?r \<and> vals = ?c"
      have "f ?r (n + 15) ?c = Some vs"
        using eq a
        by (simp only: shuffle_identity_always prod.case isSolvable_canonical_order
            not_False_eq_True if_True)
      then show False using IH by blast
    qed
  qed
  then show False by simp
qed

text \<open>
  With such a random source \<open>initializeGame\<close> never returns.
\<close>

theorem initializeGame_may_not_return:
  "random_ok (\<lambda>n. (63 * 2 ^ 47, 53)) \<and> initializeGame (\<lambda>n. (63 * 2 ^ 47, 53)) st = None"
proof -
  have ok: "random_ok (\<lambda>n. (63 * 2 ^ 47, 53))"
    by (simp add: random_ok_def is_random_double_def)
  have n: "nat (GRID_SIZE * GRID_SIZE) = 16" by (simp add: GRID_SIZE_def)
  have "initializeGame (\<lambda>n. (63 * 2 ^ 47, 53)) st = None"
    unfolding initializeGame_def n canonical16 shuffle_until_solvable_may_diverge
    by (simp only: option.case)
  then show ?thesis using ok by (rule conjI [rotated])
qed

text \<open>
  Claim C2. Every board that \<open>initializeGame\<close> returns is solvable: for every random
  source, when the shuffle loop ends, the row-major linear value sequence of the new
  board exists and \<open>isSolvable\<close> returns true on it.
\<close>

theorem initializeGame_solvable:
  assumes "random_ok rnd" and "initializeGame rnd st = Some st'"
  shows "\<exists>vs. linear_values (tiles st') = Some vs \<and> isSolvable vs"
proof -
  obtain vs where l: "shuffle_until_solvable rnd 0 (map int [0..<16]) = Some vs"
    and t: "tiles st' = newTiles vs"
    using assms(2) by (rule initializeGame_Some) simp
  have "isSolvable vs" "mset vs = mset (map int [0..<16])"
    using shuffle_until_solvable_sound [OF l assms(1)] by simp_all
  then show ?thesis
    using t linear_values_newTiles by auto
qed

text \<open>
  A random source whose first shuffle is the identity, which is rejected, and whose
  second shuffle deals the solved order, which is accepted.
\<close>

theorem initializeGame_solvable_witness:
  "random_ok (\<lambda>n. if n < 15 then (63 * 2 ^ 47, 53) else (0, 53))
   \<and> initializeGame (\<lambda>n. if n < 15 then (63 * 2 ^ 47, 53) else (0, 53)) initialSession
       = Some (initialSession\<lparr>tiles := newTiles [1, 2, 3, 4, 5, 6, 7, 8, 9, 10, 11, 12, 13, 14, 15, 0],
            isWon := False, moveCount := 0, time := 0, isRunning := True\<rparr>)
   \<and> (\<exists>vs. linear_values (newTiles [1, 2, 3, 4, 5, 6, 7, 8, 9, 10, 11, 12, 13, 14, 15, 0]) = Some vs
        \<and> isSolvable vs)"
proof -
  let ?rnd = "(\<lambda>n. if n < 15 then (63 * 2 ^ 47, 53) else (0, 53)) :: random_source"
  have ok: "random_ok ?rnd" by (simp add: random_ok_def is_random_double_def)
  have ev: "initializeGame ?rnd initialSession
       = Some (initialSession\<lparr>tiles := newTiles [1, 2, 3, 4, 5, 6, 7, 8, 9, 10, 11, 12, 13, 14, 15, 0],
            isWon := False, moveCount := 0, time := 0, isRunning := True\<rparr>)"
    by (simp add: initializeGame_def GRID_SIZE_def second_shuffle_accepted)
  show ?thesis
    using ok ev initializeGame_solvable [OF ok ev] by simp
qed

section \<open>Properties of moves\<close>

lemma board_value_inj:
  assumes "board_inv ts" "t \<in> set ts" "t' \<in> set ts" "value_t t = value_t t'"
  shows "t = t'"
proof -
  have "distinct (map value_t ts)" using assms(1) by (simp only: board_inv_iff)
  then have "inj_on value_t (set ts)" by (simp add: distinct_map)
  then show ?thesis using assms(2-4) by (auto dest: inj_onD)
qed

lemma board_position_inj:
  assumes "board_inv ts" "t \<in> set ts" "t' \<in> set ts" "position t = position t'"
  shows "t = t'"
proof -
  have "distinct (map position ts)" using assms(1) by (simp only: board_inv_iff)
  then have "inj_on position (set ts)" by (simp add: distinct_map)
  then show ?thesis using assms(2-4) by (auto dest: inj_onD)
qed

lemma board_find_empty:
  assumes "board_inv ts" "e \<in> set ts" "value_t e = 0"
  shows "find (\<lambda>tile. value_t tile = EMPTY_TILE_VALUE) ts = Some e"
proof (cases "find (\<lambda>tile. value_t tile = EMPTY_TILE_VALUE) ts")
  case None
  then show ?thesis using assms(2,3) by (auto simp: find_None_iff EMPTY_TILE_VALUE_def)
next
  case (Some e')
  then have "e' \<in> set ts" "value_t e' = 0"
    by (auto simp: find_Some_iff EMPTY_TILE_VALUE_def)
  then have "e' = e" using assms board_value_inj by metis
  then show ?thesis using Some by simp
qed

lemma board_has_empty:
  assumes "board_inv ts"
  shows "\<exists>e\<in>set ts. value_t e = 0"
proof -
  have "set (map value_t ts) = {0..<16}" using assms by (simp only: board_inv_iff)
  then have "0 \<in> set (map value_t ts)" by simp
  then show ?thesis by auto
qed

lemma isAdjacent_irrefl: "\<not> isAdjacent p p"
  by (simp add: isAdjacent_def)

lemma handleTileClick_won: "isWon st \<Longrightarrow> handleTileClick c st = st"
  by (simp add: handleTileClick_def)

lemma handleTileClick_not_adjacent:
  assumes "board_inv (tiles st)" "e \<in> set (tiles st)" "value_t e = 0"
    and "\<not> isAdjacent (position c) (position e)"
  shows "handleTileClick c st = st"
  using assms(4) by (simp add: handleTileClick_def board_find_empty [OF assms(1-3)])

lemma handleTileClick_adjacent:
  assumes "board_inv (tiles st)" "e \<in> set (tiles st)" "value_t e = 0"
    and "c \<in> set (tiles st)" and "isAdjacent (position c) (position e)" and "\<not> isWon st"
  shows "handleTileClick c st =
         st\<lparr>tiles := map (\<lambda>tile. if tile = c then tile\<lparr>position := position e\<rparr>
                               else if tile = e then tile\<lparr>position := position c\<rparr>
                               else tile) (tiles st),
            moveCount := moveCount st + 1,
            isRunning := True\<rparr>"
proof -
  have m: "map (\<lambda>tile. if value_t tile = value_t c then tile\<lparr>position := position e\<rparr>
                       else if value_t tile = EMPTY_TILE_VALUE then tile\<lparr>position := position c\<rparr>
                       else tile) (tiles st)
         = map (\<lambda>tile. if tile = c then tile\<lparr>position := position e\<rparr>
                       else if tile = e then tile\<lparr>position := position c\<rparr>
                       else tile) (tiles st)"
  proof (rule map_cong [OF refl])
    fix t assume t: "t \<in> set (tiles st)"
    have 1: "value_t t = value_t c \<longleftrightarrow> t = c"
      using board_value_inj [OF assms(1) t assms(4)] by auto
    have 2: "value_t t = EMPTY_TILE_VALUE \<longleftrightarrow> t = e"
      using board_value_inj [OF assms(1) t assms(2)] assms(3) by (auto simp: EMPTY_TILE_VALUE_def)
    show "(if value_t t = value_t c then t\<lparr>position := position e\<rparr>
           else if value_t t = EMPTY_TILE_VALUE then t\<lparr>position := position c\<rparr> else t)
        = (if t = c then t\<lparr>position := position e\<rparr>
           else if t = e then t\<lparr>position := position c\<rparr> else t)"
      unfolding 1 2 ..
  qed
  have r: "(if \<not> isRunning st then True else isRunning st) = True" by simp
  show ?thesis
    using assms(5,6)
    by (simp only: handleTileClick_def board_find_empty [OF assms(1-3)] m r option.case if_True if_False)
qed

lemma int_range16: "{0..15::int} = {0..<16}"
  by (rule set_eqI) (simp, linarith)

lemma mset_values_16:
  assumes "length vs = 16" "distinct vs" "set vs \<subseteq> {0..15}"
  shows "mset vs = mset (map int [0..<16])"
proof -
  have "set vs = {0..15}" using assms by (rule zero_in_full_sequence)
  then have s: "set vs = {0..<16}" by (simp only: int_range16)
  have f: "finite {0..<16::int}" by simp
  have "mset vs = mset_set {0..<16}"
    using mset_eq_mset_set_iff [OF f, of vs] assms(2) s by blast
  then show ?thesis by (simp only: mset_canonical)
qed

lemma example_tiles:
  "newTiles example_values =
    [tile_of 0 1 0 0, tile_of 1 2 0 1, tile_of 2 3 0 2, tile_of 3 4 0 3,
     tile_of 4 5 1 0, tile_of 5 6 1 1, tile_of 6 7 1 2, tile_of 7 8 1 3,
     tile_of 8 9 2 0, tile_of 9 10 2 1, tile_of 10 11 2 2, tile_of 11 12 2 3,
     tile_of 12 13 3 0, tile_of 13 14 3 1, tile_of 14 0 3 2, tile_of 15 15 3 3]"
  by (simp add: newTiles_def example_values_def tile_of_def upt_rec js_rem_def GRID_SIZE_def)

lemma example_board_inv: "board_inv (newTiles example_values)"
  by (rule board_inv_newTiles, rule mset_values_16) (simp_all add: example_values_def)

text \<open>
  Claim C4. With \<open>e\<close> the empty tile of a board and \<open>c\<close> a clicked tile of it,
  \<open>handleTileClick\<close> changes the session exactly when the session is not won and
  \<open>c\<close> is adjacent to \<open>e\<close>: same row and columns differing by one, or same column and
  rows differing by one. In every other case (a diagonal neighbour, a distant tile, the
  empty tile itself) the call returns the session as it was: the board and the move
  count are unchanged.
\<close>

theorem handleTileClick_adjacency:
  assumes "board_inv (tiles st)" and "c \<in> set (tiles st)"
    and "e \<in> set (tiles st)" and "value_t e = 0"
  shows "(handleTileClick c st \<noteq> st \<longleftrightarrow>
            \<not> isWon st \<and>
            ((row (position c) = row (position e) \<and> \<bar>col (position c) - col (position e)\<bar> = 1)
             \<or> (col (position c) = col (position e) \<and> \<bar>row (position c) - row (position e)\<bar> = 1)))
    \<and> (\<bar>row (position c) - row (position e)\<bar> = 1 \<and> \<bar>col (position c) - col (position e)\<bar> = 1
          \<longrightarrow> handleTileClick c st = st)
    \<and> (value_t c = 0 \<longrightarrow> handleTileClick c st = st)
    \<and> (handleTileClick c st = st \<or>
          (tiles (handleTileClick c st) \<noteq> tiles st
           \<and> moveCount (handleTileClick c st) = moveCount st + 1))"
proof -
  let ?adj = "(row (position c) = row (position e) \<and> \<bar>col (position c) - col (position e)\<bar> = 1)
             \<or> (col (position c) = col (position e) \<and> \<bar>row (position c) - row (position e)\<bar> = 1)"
  have adj: "isAdjacent (position c) (position e) \<longleftrightarrow> ?adj"
    by (simp add: isAdjacent_def)
  have no: "handleTileClick c st = st" if "isWon st \<or> \<not> ?adj"
    using that handleTileClick_won [of st c]
      handleTileClick_not_adjacent [OF assms(1,3,4), of c] adj by blast
  have yes: "handleTileClick c st \<noteq> st
      \<and> tiles (handleTileClick c st) \<noteq> tiles st
      \<and> moveCount (handleTileClick c st) = moveCount st + 1" if a: "\<not> isWon st" "?adj"
  proof -
    have ia: "isAdjacent (position c) (position e)" using a(2) adj by simp
    note h = handleTileClick_adjacent [OF assms(1,3,4,2) ia a(1)]
    have mc: "moveCount (handleTileClick c st) = moveCount st + 1"
      unfolding h by simp
    have ne: "position c \<noteq> position e" using ia isAdjacent_irrefl by auto
    obtain k where k: "k < length (tiles st)" "tiles st ! k = c"
      using assms(2) by (auto simp: in_set_conv_nth)
    have "position (tiles (handleTileClick c st) ! k) = position e"
      unfolding h using k by simp
    then have "tiles (handleTileClick c st) ! k \<noteq> tiles st ! k"
      using k(2) ne by auto
    then have tl: "tiles (handleTileClick c st) \<noteq> tiles st" by auto
    show ?thesis using mc tl by auto
  qed
  have diag: "\<not> ?adj"
    if "\<bar>row (position c) - row (position e)\<bar> = 1 \<and> \<bar>col (position c) - col (position e)\<bar> = 1"
    using that by auto
  have zero: "\<not> ?adj" if z: "value_t c = 0"
  proof -
    have "c = e" using board_value_inj [OF assms(1,2,3)] z assms(4) by simp
    then show ?thesis by simp
  qed
  show ?thesis
    using no yes diag zero by blast
qed

text \<open>
  On the example board, a click on tile 12 (a diagonal neighbour), on the empty tile or
  on tile 1 (far away) leaves the session as it was; a click on tile 15 changes it.
\<close>

theorem handleTileClick_adjacency_witness:
  "board_inv (tiles example_session)
   \<and> tile_of 11 12 2 3 \<in> set (tiles example_session)
   \<and> tile_of 14 0 3 2 \<in> set (tiles example_session)
   \<and> value_t (tile_of 14 0 3 2) = 0
   \<and> handleTileClick (tile_of 11 12 2 3) example_session = example_session
   \<and> handleTileClick (tile_of 14 0 3 2) example_session = example_session
   \<and> handleTileClick (tile_of 0 1 0 0) example_session = example_session
   \<and> handleTileClick (tile_of 15 15 3 3) example_session \<noteq> example_session"
proof -
  have b: "board_inv (tiles example_session)"
    by (simp add: example_session_def example_board_inv)
  have t: "tiles example_session = newTiles example_values"
    by (simp add: example_session_def)
  have m12: "tile_of 11 12 2 3 \<in> set (tiles example_session)"
    and m0: "tile_of 14 0 3 2 \<in> set (tiles example_session)"
    and m1: "tile_of 0 1 0 0 \<in> set (tiles example_session)"
    and m15: "tile_of 15 15 3 3 \<in> set (tiles example_session)"
    unfolding t example_tiles by simp_all
  have z: "value_t (tile_of 14 0 3 2) = 0" by (simp add: tile_of_def)
  have nw: "\<not> isWon example_session" by (simp add: example_session_def)
  have "handleTileClick (tile_of 11 12 2 3) example_session = example_session"
    using handleTileClick_adjacency [OF b m12 m0 z] by (simp add: tile_of_def)
  moreover have "handleTileClick (tile_of 14 0 3 2) example_session = example_session"
    using handleTileClick_adjacency [OF b m0 m0 z] by (simp add: tile_of_def)
  moreover have "handleTileClick (tile_of 0 1 0 0) example_session = example_session"
    using handleTileClick_adjacency [OF b m1 m0 z] by (simp add: tile_of_def)
  moreover have "handleTileClick (tile_of 15 15 3 3) example_session \<noteq> example_session"
    using handleTileClick_adjacency [OF b m15 m0 z] nw by (simp add: tile_of_def)
  ultimately show ?thesis using b m12 m0 z by blast
qed

lemma solved_tiles:
  "newTiles solved_values =
    [tile_of 0 1 0 0, tile_of 1 2 0 1, tile_of 2 3 0 2, tile_of 3 4 0 3,
     tile_of 4 5 1 0, tile_of 5 6 1 1, tile_of 6 7 1 2, tile_of 7 8 1 3,
     tile_of 8 9 2 0, tile_of 9 10 2 1, tile_of 10 11 2 2, tile_of 11 12 2 3,
     tile_of 12 13 3 0, tile_of 13 14 3 1, tile_of 14 15 3 2, tile_of 15 0 3 3]"
  by (simp add: newTiles_def solved_values_def tile_of_def upt_rec js_rem_def GRID_SIZE_def)

lemma solved_board_inv: "board_inv (newTiles solved_values)"
  by (rule board_inv_newTiles, rule mset_values_16) (simp_all add: solved_values_def)

lemma first_shuffle_accepted:
  "shuffle_until_solvable (\<lambda>n. (0, 53)) 0 (map int [0..<16]) = Some solved_values"
proof -
  have sh: "shuffleArray (\<lambda>n. (0, 53)) 0 [0, 1, 2, 3, 4, 5, 6, 7, 8, 9, 10, 11, 12, 13, 14, 15]
     = ([1, 2, 3, 4, 5, 6, 7, 8, 9, 10, 11, 12, 13, 14, 15, 0], 15)"
    by (simp add: shuffle_eval)
  show ?thesis
    unfolding canonical16 solved_values_def
    apply (subst shuffle_until_solvable.simps)
    apply (simp only: sh prod.case isSolvable_solved_order not_True_eq_False if_False)
    done
qed

lemma deal_solved_board: "initializeGame (\<lambda>n. (0, 53)) initialSession = Some fresh_session"
  by (simp add: initializeGame_def GRID_SIZE_def first_shuffle_accepted initialSession_def fresh_session_def)

lemma slide_15_right: "handleTileClick (tile_of 14 15 3 2) fresh_session = fresh_session\<lparr>tiles := moved_tiles, moveCount := 1\<rparr>"
  by (simp add: handleTileClick_def fresh_session_def solved_tiles moved_tiles_def tile_of_def isAdjacent_def EMPTY_TILE_VALUE_def)

lemma slide_15_left: "handleTileClick (tile_of 14 15 3 3) (fresh_session\<lparr>tiles := moved_tiles, moveCount := 1\<rparr>) = fresh_session\<lparr>moveCount := 2\<rparr>"
  by (simp add: handleTileClick_def fresh_session_def solved_tiles moved_tiles_def tile_of_def isAdjacent_def EMPTY_TILE_VALUE_def)

lemma solved_hasWon: "hasWon (newTiles solved_values)"
  by (simp add: hasWon_def solved_tiles tile_of_def EMPTY_TILE_VALUE_def GRID_SIZE_def js_rem_def)

lemma win_after_two_moves: "winCheck (fresh_session\<lparr>moveCount := 2\<rparr>) = won_session"
  using solved_hasWon by (simp add: winCheck_def fresh_session_def won_session_def newTiles_def solved_values_def)

lemma reachable_fresh_session: "reachable fresh_session"
proof -
  have ev: "apply_event (NewGame (\<lambda>n. (0, 53))) initialSession = Some fresh_session"
    using deal_solved_board by simp
  show ?thesis
    by (rule reachable_step [OF reachable_init _ ev]) (simp add: random_ok_def is_random_double_def)
qed

lemma reachable_won_session: "reachable won_session"
proof -
  have m1: "tile_of 14 15 3 2 \<in> set (tiles fresh_session)"
    by (simp add: fresh_session_def solved_tiles)
  have v: "value_t (tile_of 14 15 r c) \<noteq> EMPTY_TILE_VALUE" for r c
    by (simp add: tile_of_def EMPTY_TILE_VALUE_def)
  have e2: "apply_event (Click (tile_of 14 15 3 2)) fresh_session
        = Some (fresh_session\<lparr>tiles := moved_tiles, moveCount := 1\<rparr>)"
    using m1 v slide_15_right by simp
  have r2: "reachable (fresh_session\<lparr>tiles := moved_tiles, moveCount := 1\<rparr>)"
    by (rule reachable_step [OF reachable_fresh_session _ e2]) simp
  have m2: "tile_of 14 15 3 3 \<in> set (tiles (fresh_session\<lparr>tiles := moved_tiles, moveCount := 1\<rparr>))"
    by (simp add: moved_tiles_def)
  have e3: "apply_event (Click (tile_of 14 15 3 3)) (fresh_session\<lparr>tiles := moved_tiles, moveCount := 1\<rparr>)
        = Some (fresh_session\<lparr>moveCount := 2\<rparr>)"
    using m2 v slide_15_left by simp
  have r3: "reachable (fresh_session\<lparr>moveCount := 2\<rparr>)"
    by (rule reachable_step [OF r2 _ e3]) simp
  have e4: "apply_event WinCheck (fresh_session\<lparr>moveCount := 2\<rparr>) = Some won_session"
    using win_after_two_moves by simp
  show ?thesis
    by (rule reachable_step [OF r3 _ e4]) simp
qed

text \<open>
  Claim C5, amended. When the session is not already won, a click on a tile \<open>c\<close> of the
  board that is adjacent to the empty tile \<open>e\<close> gives \<open>c\<close> the former position of
  \<open>e\<close> and \<open>e\<close> the former position of \<open>c\<close>; every other tile stays as it is, and
  each tile keeps its identity and value; the move count grows by exactly 1.
\<close>

theorem handleTileClick_swaps_positions:
  assumes "board_inv (tiles st)" and "c \<in> set (tiles st)"
    and "e \<in> set (tiles st)" and "value_t e = 0"
    and "isAdjacent (position c) (position e)" and "\<not> isWon st"
  shows "tiles (handleTileClick c st)
           = map (\<lambda>tile. if tile = c then tile\<lparr>position := position e\<rparr>
                          else if tile = e then tile\<lparr>position := position c\<rparr>
                          else tile) (tiles st)
    \<and> map id_t (tiles (handleTileClick c st)) = map id_t (tiles st)
    \<and> map value_t (tiles (handleTileClick c st)) = map value_t (tiles st)
    \<and> moveCount (handleTileClick c st) = moveCount st + 1"
proof -
  note h = handleTileClick_adjacent [OF assms(1,3,4,2,5,6)]
  have t: "tiles (handleTileClick c st)
           = map (\<lambda>tile. if tile = c then tile\<lparr>position := position e\<rparr>
                          else if tile = e then tile\<lparr>position := position c\<rparr>
                          else tile) (tiles st)"
    unfolding h by simp
  have fi: "id_t (if tile = c then tile\<lparr>position := position e\<rparr>
                 else if tile = e then tile\<lparr>position := position c\<rparr> else tile) = id_t tile"
    and fv: "value_t (if tile = c then tile\<lparr>position := position e\<rparr>
                 else if tile = e then tile\<lparr>position := position c\<rparr> else tile) = value_t tile"
    for tile by simp_all
  have i: "map id_t (tiles (handleTileClick c st)) = map id_t (tiles st)"
    unfolding t by (simp only: map_map comp_def fi)
  have v: "map value_t (tiles (handleTileClick c st)) = map value_t (tiles st)"
    unfolding t by (simp only: map_map comp_def fv)
  have m: "moveCount (handleTileClick c st) = moveCount st + 1"
    unfolding h by simp
  show ?thesis using t i v m by blast
qed

text \<open>
  On the solved board of a session that is not won, a click on tile 15 exchanges it with
  the empty tile and counts one move.
\<close>

theorem handleTileClick_swaps_positions_witness:
  "board_inv (tiles fresh_session)
   \<and> tile_of 14 15 3 2 \<in> set (tiles fresh_session)
   \<and> tile_of 15 0 3 3 \<in> set (tiles fresh_session)
   \<and> value_t (tile_of 15 0 3 3) = 0
   \<and> isAdjacent (position (tile_of 14 15 3 2)) (position (tile_of 15 0 3 3))
   \<and> \<not> isWon fresh_session
   \<and> tiles (handleTileClick (tile_of 14 15 3 2) fresh_session) = moved_tiles
   \<and> moveCount (handleTileClick (tile_of 14 15 3 2) fresh_session) = 1"
proof -
  have b: "board_inv (tiles fresh_session)"
    by (simp add: fresh_session_def solved_board_inv)
  have c: "tile_of 14 15 3 2 \<in> set (tiles fresh_session)"
    and e: "tile_of 15 0 3 3 \<in> set (tiles fresh_session)"
    by (simp_all add: fresh_session_def solved_tiles)
  have z: "value_t (tile_of 15 0 3 3) = 0" by (simp add: tile_of_def)
  have a: "isAdjacent (position (tile_of 14 15 3 2)) (position (tile_of 15 0 3 3))"
    by (simp add: isAdjacent_def tile_of_def)
  have w: "\<not> isWon fresh_session" by (simp add: fresh_session_def)
  note t = handleTileClick_swaps_positions [OF b c e z a w]
  have "tiles (handleTileClick (tile_of 14 15 3 2) fresh_session) = moved_tiles"
    using t by (simp add: fresh_session_def solved_tiles moved_tiles_def tile_of_def)
  moreover have "moveCount (handleTileClick (tile_of 14 15 3 2) fresh_session) = 1"
    using t by (simp add: fresh_session_def)
  ultimately show ?thesis using b c e z a w by blast
qed

text \<open>
  Without the condition on the won flag the statement fails: in the won session, which
  is reachable, tile 15 is adjacent to the empty tile and a click on it changes nothing.
\<close>

theorem handleTileClick_won_counterexample:
  "reachable won_session
   \<and> board_inv (tiles won_session)
   \<and> tile_of 14 15 3 2 \<in> set (tiles won_session)
   \<and> tile_of 15 0 3 3 \<in> set (tiles won_session)
   \<and> value_t (tile_of 15 0 3 3) = 0
   \<and> isAdjacent (position (tile_of 14 15 3 2)) (position (tile_of 15 0 3 3))
   \<and> handleTileClick (tile_of 14 15 3 2) won_session = won_session
   \<and> position (tile_of 14 15 3 2) \<noteq> position (tile_of 15 0 3 3)
   \<and> moveCount (handleTileClick (tile_of 14 15 3 2) won_session) \<noteq> moveCount won_session + 1"
proof -
  have b: "board_inv (tiles won_session)"
    by (simp add: won_session_def solved_board_inv)
  have c: "tile_of 14 15 3 2 \<in> set (tiles won_session)"
    and e: "tile_of 15 0 3 3 \<in> set (tiles won_session)"
    by (simp_all add: won_session_def solved_tiles)
  have z: "value_t (tile_of 15 0 3 3) = 0" by (simp add: tile_of_def)
  have a: "isAdjacent (position (tile_of 14 15 3 2)) (position (tile_of 15 0 3 3))"
    by (simp add: isAdjacent_def tile_of_def)
  have n: "position (tile_of 14 15 3 2) \<noteq> position (tile_of 15 0 3 3)"
    by (simp add: tile_of_def)
  have h: "handleTileClick (tile_of 14 15 3 2) won_session = won_session"
    by (simp add: handleTileClick_def won_session_def)
  have m: "moveCount (handleTileClick (tile_of 14 15 3 2) won_session) \<noteq> moveCount won_session + 1"
    unfolding h by simp
  show ?thesis using reachable_won_session b c e z a n h m by blast
qed

lemma board_positions_after_move:
  assumes "board_inv ts" and "c \<in> set ts" and "e \<in> set ts"
  shows "board_inv (map (\<lambda>tile. if tile = c then tile\<lparr>position := position e\<rparr>
                               else if tile = e then tile\<lparr>position := position c\<rparr>
                               else tile) ts)"
proof -
  let ?f = "\<lambda>tile. if tile = c then tile\<lparr>position := position e\<rparr>
                    else if tile = e then tile\<lparr>position := position c\<rparr> else tile"
  define sw where "sw = (\<lambda>p. if p = position c then position e
                             else if p = position e then position c else p)"
  have d: "distinct (map position ts)" and g: "set (map position ts) = grid_cells"
    and dv: "distinct (map value_t ts)" and sv: "set (map value_t ts) = {0..<16}"
    using assms(1) by (simp_all only: board_inv_iff)
  have fv: "value_t (?f tile) = value_t tile" for tile by simp
  have vals: "map value_t (map ?f ts) = map value_t ts"
    by (simp only: map_map comp_def fv)
  have fp: "position (?f t) = sw (position t)" if mem: "t \<in> set ts" for t
  proof (cases "t = c")
    case True
    then show ?thesis by (simp add: sw_def)
  next
    case nc: False
    show ?thesis
    proof (cases "t = e")
      case True
      then show ?thesis using nc by (simp add: sw_def)
    next
      case ne: False
      have "position t \<noteq> position c"
        using board_position_inj [OF assms(1) mem assms(2)] nc by blast
      moreover have "position t \<noteq> position e"
        using board_position_inj [OF assms(1) mem assms(3)] ne by blast
      ultimately show ?thesis using nc ne by (simp add: sw_def)
    qed
  qed
  have pos: "map position (map ?f ts) = map sw (map position ts)"
    unfolding map_map by (rule map_cong [OF refl]) (simp only: comp_def fp)
  have invol: "sw (sw p) = p" for p by (simp add: sw_def)
  have inj: "inj sw" by (rule inj_on_inverseI [where g = sw]) (rule invol)
  have pc: "position c \<in> grid_cells" and pe: "position e \<in> grid_cells"
    using g assms(2,3) by auto
  have sub: "sw ` grid_cells \<subseteq> grid_cells"
    using pc pe by (auto simp: sw_def)
  have "grid_cells \<subseteq> sw ` grid_cells"
  proof
    fix p assume "p \<in> grid_cells"
    then have "sw p \<in> grid_cells" using sub by auto
    then have "sw (sw p) \<in> sw ` grid_cells" by (rule imageI)
    then show "p \<in> sw ` grid_cells" by (simp only: invol)
  qed
  then have img: "sw ` grid_cells = grid_cells" using sub by auto
  have io: "inj_on sw (set (map position ts))"
    using inj by (rule inj_on_subset) simp
  have d': "distinct (map sw (map position ts))"
    using d io distinct_map [of sw "map position ts"] by blast
  have g': "set (map sw (map position ts)) = grid_cells"
    using g img by (simp only: set_map)
  show ?thesis
    unfolding board_inv_iff vals pos using d' g' dv sv by blast
qed

lemma handleTileClick_cases:
  assumes "board_inv (tiles st)" and "c \<in> set (tiles st)"
  obtains (same) "handleTileClick c st = st"
  | (moved) e where "e \<in> set (tiles st)" "value_t e = 0" "value_t c \<noteq> 0"
      "isAdjacent (position c) (position e)" "\<not> isWon st"
      "handleTileClick c st =
         st\<lparr>tiles := map (\<lambda>tile. if tile = c then tile\<lparr>position := position e\<rparr>
                               else if tile = e then tile\<lparr>position := position c\<rparr>
                               else tile) (tiles st),
            moveCount := moveCount st + 1,
            isRunning := True\<rparr>"
proof -
  obtain e where e: "e \<in> set (tiles st)" "value_t e = 0"
    using board_has_empty [OF assms(1)] by blast
  show thesis
  proof (cases "\<not> isWon st \<and> isAdjacent (position c) (position e)")
    case True
    have "c \<noteq> e" using True isAdjacent_irrefl by auto
    then have "value_t c \<noteq> 0"
      using board_value_inj [OF assms(1,2) e(1)] e(2) by auto
    then show ?thesis
      using moved [OF e] True handleTileClick_adjacent [OF assms(1) e assms(2)] by blast
  next
    case False
    then have "handleTileClick c st = st"
      using handleTileClick_won [of st c] handleTileClick_not_adjacent [OF assms(1) e, of c]
      by blast
    then show ?thesis by (rule same)
  qed
qed

lemma board_one_empty:
  assumes "board_inv ts"
  shows "length (filter (\<lambda>t. value_t t = 0) ts) = 1"
proof -
  obtain e where e: "e \<in> set ts" "value_t e = 0"
    using board_has_empty [OF assms] by blast
  have "distinct (map value_t ts)" using assms by (simp only: board_inv_iff)
  then have d: "distinct ts" by (simp add: distinct_map)
  have "{t. value_t t = 0} \<inter> set ts = {e}"
    using e board_value_inj [OF assms] by auto
  then show ?thesis
    using d by (simp add: distinct_length_filter)
qed

text \<open>
  Claim C6. The Board invariant (the tiles' positions are exactly the cells of the grid,
  each once; their values are exactly \<open>0, \<dots>, 15\<close>, each once, so exactly one tile has
  value 0) holds for the board of every new game and is preserved by every click on a
  tile of the board.
\<close>

theorem board_inv_established_and_preserved:
  "(random_ok rnd \<and> initializeGame rnd st0 = Some st1 \<longrightarrow> board_inv (tiles st1))
   \<and> (board_inv (tiles st) \<and> c \<in> set (tiles st) \<longrightarrow> board_inv (tiles (handleTileClick c st)))
   \<and> (board_inv ts \<longrightarrow>
        mset (map position ts) = mset_set grid_cells
        \<and> mset (map value_t ts) = mset_set {0..<16}
        \<and> length (filter (\<lambda>t. value_t t = 0) ts) = 1)"
proof (intro conjI impI)
  assume a: "random_ok rnd \<and> initializeGame rnd st0 = Some st1"
  then obtain vs where l: "shuffle_until_solvable rnd 0 (map int [0..<16]) = Some vs"
    and t: "tiles st1 = newTiles vs"
    by (auto elim: initializeGame_Some)
  have "mset vs = mset (map int [0..<16])"
    using shuffle_until_solvable_sound [OF l] a by simp
  then show "board_inv (tiles st1)"
    unfolding t by (rule board_inv_newTiles)
next
  assume a: "board_inv (tiles st) \<and> c \<in> set (tiles st)"
  then have b: "board_inv (tiles st)" and m: "c \<in> set (tiles st)" by simp_all
  from b m show "board_inv (tiles (handleTileClick c st))"
  proof (cases rule: handleTileClick_cases)
    case same
    then show ?thesis using b by simp
  next
    case (moved e)
    show ?thesis
      unfolding moved(6) using board_positions_after_move [OF b m moved(1)] by simp
  qed
next
  assume "board_inv ts"
  then show "mset (map position ts) = mset_set grid_cells"
    by (simp only: board_inv_def)
next
  assume "board_inv ts"
  then show "mset (map value_t ts) = mset_set {0..<16}"
    by (simp add: board_inv_def GRID_SIZE_def)
next
  assume "board_inv ts"
  then show "length (filter (\<lambda>t. value_t t = 0) ts) = 1"
    by (rule board_one_empty)
qed

text \<open>
  The new game that deals the solved board, and a click on tile 15.
\<close>

theorem board_inv_established_and_preserved_witness:
  "random_ok (\<lambda>n. (0, 53))
   \<and> initializeGame (\<lambda>n. (0, 53)) initialSession = Some fresh_session
   \<and> board_inv (tiles fresh_session)
   \<and> tile_of 14 15 3 2 \<in> set (tiles fresh_session)
   \<and> tiles (handleTileClick (tile_of 14 15 3 2) fresh_session) = moved_tiles
   \<and> board_inv moved_tiles
   \<and> mset (map value_t moved_tiles) = mset_set {0..<16}
   \<and> length (filter (\<lambda>t. value_t t = 0) moved_tiles) = 1"
proof -
  note t = board_inv_established_and_preserved
    [where rnd = "\<lambda>n. (0, 53)" and ?st0.0 = initialSession and ?st1.0 = fresh_session
       and st = fresh_session and c = "tile_of 14 15 3 2" and ts = moved_tiles]
  have ok: "random_ok (\<lambda>n. (0, 53))" by (simp add: random_ok_def is_random_double_def)
  have b1: "board_inv (tiles fresh_session)"
    using t ok deal_solved_board by blast
  have m: "tile_of 14 15 3 2 \<in> set (tiles fresh_session)"
    by (simp add: fresh_session_def solved_tiles)
  have mv: "tiles (handleTileClick (tile_of 14 15 3 2) fresh_session) = moved_tiles"
    by (simp add: slide_15_right)
  have b2: "board_inv moved_tiles"
    using t b1 m unfolding mv by blast
  have "mset (map value_t moved_tiles) = mset_set {0..<16}"
    and "length (filter (\<lambda>t. value_t t = 0) moved_tiles) = 1"
    using t b2 by blast+
  then show ?thesis using ok deal_solved_board b1 m mv b2 by blast
qed

lemma isAdjacent_sym: "isAdjacent p q \<longleftrightarrow> isAdjacent q p"
  by (auto simp: isAdjacent_def)

text \<open>
  Claim C7. In a session that is not won, after a click on a tile \<open>c\<close> adjacent to the
  empty tile \<open>e\<close>, the tile with the value of \<open>c\<close> stands where \<open>e\<close> was and is
  adjacent to the empty cell, which stands where \<open>c\<close> was; a second click on that tile
  (the session still not won) gives back the tiles as they were before the first click.
\<close>

theorem handleTileClick_self_inverse:
  assumes "board_inv (tiles st)" and "c \<in> set (tiles st)"
    and "e \<in> set (tiles st)" and "value_t e = 0"
    and "isAdjacent (position c) (position e)" and "\<not> isWon st"
  shows "c\<lparr>position := position e\<rparr> \<in> set (tiles (handleTileClick c st))
    \<and> e\<lparr>position := position c\<rparr> \<in> set (tiles (handleTileClick c st))
    \<and> isAdjacent (position (c\<lparr>position := position e\<rparr>)) (position (e\<lparr>position := position c\<rparr>))
    \<and> tiles (handleTileClick (c\<lparr>position := position e\<rparr>) (handleTileClick c st)) = tiles st
    \<and> (\<forall>st1. tiles st1 = tiles (handleTileClick c st) \<and> \<not> isWon st1 \<longrightarrow>
           tiles (handleTileClick (c\<lparr>position := position e\<rparr>) st1) = tiles st)"
proof -
  let ?c' = "c\<lparr>position := position e\<rparr>" and ?e' = "e\<lparr>position := position c\<rparr>"
  let ?f = "\<lambda>tile. if tile = c then tile\<lparr>position := position e\<rparr>
                    else if tile = e then tile\<lparr>position := position c\<rparr> else tile"
  let ?f' = "\<lambda>tile. if tile = ?c' then tile\<lparr>position := position ?e'\<rparr>
                     else if tile = ?e' then tile\<lparr>position := position ?c'\<rparr> else tile"
  note h = handleTileClick_adjacent [OF assms(1,3,4,2,5,6)]
  have ts': "tiles (handleTileClick c st) = map ?f (tiles st)"
    unfolding h by simp
  have ce: "c \<noteq> e" using assms(5) isAdjacent_irrefl by auto
  have vc: "value_t c \<noteq> 0"
    using board_value_inj [OF assms(1,2,3)] assms(4) ce by auto
  have b': "board_inv (map ?f (tiles st))"
    using assms(1,2,3) by (rule board_positions_after_move)
  have "?c' \<in> ?f ` set (tiles st)"
    by (rule image_eqI [where x = c]) (simp_all add: assms(2))
  then have c': "?c' \<in> set (map ?f (tiles st))" by (simp only: set_map)
  have "?e' \<in> ?f ` set (tiles st)"
    by (rule image_eqI [where x = e]) (simp_all add: assms(3) ce [symmetric])
  then have e': "?e' \<in> set (map ?f (tiles st))" by (simp only: set_map)
  have ve': "value_t ?e' = 0" using assms(4) by simp
  have adj': "isAdjacent (position ?c') (position ?e')"
    using assms(5) isAdjacent_sym by simp
  have restore: "map ?f' (map ?f (tiles st)) = tiles st"
  proof -
    have "?f' (?f t) = t" if mem: "t \<in> set (tiles st)" for t
    proof (cases "t = c")
      case True
      then show ?thesis by simp
    next
      case nc: False
      show ?thesis
      proof (cases "t = e")
        case True
        have "value_t ?e' \<noteq> value_t ?c'" using vc assms(4) by simp
        then have "?e' \<noteq> ?c'" by metis
        then show ?thesis using True nc by simp
      next
        case ne: False
        have "value_t t \<noteq> value_t c"
          using board_value_inj [OF assms(1) mem assms(2)] nc by blast
        then have 1: "t \<noteq> ?c'" by auto
        have "value_t t \<noteq> 0"
          using board_value_inj [OF assms(1) mem assms(3)] ne assms(4) by auto
        then have 2: "t \<noteq> ?e'" using assms(4) by auto
        show ?thesis using nc ne 1 2 by simp
      qed
    qed
    then have "map (\<lambda>t. ?f' (?f t)) (tiles st) = tiles st"
      by (rule map_idI)
    then show ?thesis by (simp only: map_map comp_def)
  qed
  have main: "tiles (handleTileClick ?c' st1) = tiles st"
    if a: "tiles st1 = tiles (handleTileClick c st)" "\<not> isWon st1" for st1
  proof -
    have t1: "tiles st1 = map ?f (tiles st)" using a(1) ts' by simp
    have b1: "board_inv (tiles st1)" using b' t1 by simp
    have c1: "?c' \<in> set (tiles st1)" and e1: "?e' \<in> set (tiles st1)"
      using c' e' t1 by simp_all
    note h1 = handleTileClick_adjacent [OF b1 e1 ve' c1 adj' a(2)]
    show ?thesis
      unfolding h1 using restore t1 by simp
  qed
  have w1: "\<not> isWon (handleTileClick c st)"
    unfolding h using assms(6) by simp
  show ?thesis
    using c' e' adj' main [OF refl w1] main unfolding ts' by blast
qed

text \<open>
  Two clicks on tile 15 of the solved board give back the solved board.
\<close>

theorem handleTileClick_self_inverse_witness:
  "board_inv (tiles fresh_session)
   \<and> tile_of 14 15 3 2 \<in> set (tiles fresh_session)
   \<and> tile_of 15 0 3 3 \<in> set (tiles fresh_session)
   \<and> value_t (tile_of 15 0 3 3) = 0
   \<and> isAdjacent (position (tile_of 14 15 3 2)) (position (tile_of 15 0 3 3))
   \<and> \<not> isWon fresh_session
   \<and> tiles (handleTileClick (tile_of 14 15 3 2) fresh_session) = moved_tiles
   \<and> moved_tiles \<noteq> tiles fresh_session
   \<and> tiles (handleTileClick (tile_of 14 15 3 3) (handleTileClick (tile_of 14 15 3 2) fresh_session))
       = tiles fresh_session"
proof -
  have b: "board_inv (tiles fresh_session)"
    by (simp add: fresh_session_def solved_board_inv)
  have c: "tile_of 14 15 3 2 \<in> set (tiles fresh_session)"
    and e: "tile_of 15 0 3 3 \<in> set (tiles fresh_session)"
    by (simp_all add: fresh_session_def solved_tiles)
  have z: "value_t (tile_of 15 0 3 3) = 0" by (simp add: tile_of_def)
  have a: "isAdjacent (position (tile_of 14 15 3 2)) (position (tile_of 15 0 3 3))"
    by (simp add: isAdjacent_def tile_of_def)
  have w: "\<not> isWon fresh_session" by (simp add: fresh_session_def)
  have mv: "tiles (handleTileClick (tile_of 14 15 3 2) fresh_session) = moved_tiles"
    by (simp add: slide_15_right)
  have ne: "moved_tiles \<noteq> tiles fresh_session"
    by (simp add: fresh_session_def solved_tiles moved_tiles_def tile_of_def)
  have c': "(tile_of 14 15 3 2)\<lparr>position := position (tile_of 15 0 3 3)\<rparr> = tile_of 14 15 3 3"
    by (simp add: tile_of_def)
  have "tiles (handleTileClick (tile_of 14 15 3 3) (handleTileClick (tile_of 14 15 3 2) fresh_session))
       = tiles fresh_session"
    using handleTileClick_self_inverse [OF b c e z a w] unfolding c' by blast
  then show ?thesis using b c e z a w mv ne by blast
qed

section \<open>Properties of the win check\<close>

lemma js_rem_4_nonneg: "0 \<le> a \<Longrightarrow> js_rem a 4 = a mod 4"
  by (cases "a = 0") (simp_all add: js_rem_def)

lemma position_eq_iff:
  "p = \<lparr>row = r, col = c\<rparr> \<longleftrightarrow> row p = r \<and> col p = c"
  by (cases p) simp

lemma win_test_canonical:
  assumes "0 \<le> value_t tile"
  shows "(if value_t tile = EMPTY_TILE_VALUE
          then row (position tile) = GRID_SIZE - 1 \<and> col (position tile) = GRID_SIZE - 1
          else let expectedRow = (value_t tile - 1) div GRID_SIZE;
                   expectedCol = js_rem (value_t tile - 1) GRID_SIZE
               in row (position tile) = expectedRow \<and> col (position tile) = expectedCol)
         \<longleftrightarrow> in_canonical_place tile"
proof (cases "value_t tile = 0")
  case True
  then show ?thesis
    by (simp add: in_canonical_place_def EMPTY_TILE_VALUE_def position_eq_iff)
next
  case False
  then have "0 \<le> value_t tile - 1" using assms by simp
  then have "js_rem (value_t tile - 1) 4 = (value_t tile - 1) mod 4"
    by (rule js_rem_4_nonneg)
  then show ?thesis
    using False
    by (simp add: in_canonical_place_def EMPTY_TILE_VALUE_def GRID_SIZE_def position_eq_iff)
qed

lemma hasWon_iff:
  assumes "\<forall>t\<in>set ts. 0 \<le> value_t t"
  shows "hasWon ts \<longleftrightarrow> (\<forall>t\<in>set ts. in_canonical_place t)"
  unfolding hasWon_def list_all_iff
  using assms win_test_canonical by blast

lemma board_values_nonneg:
  assumes "board_inv ts"
  shows "\<forall>t\<in>set ts. 0 \<le> value_t t"
proof
  fix t assume "t \<in> set ts"
  then have "value_t t \<in> set (map value_t ts)" by simp
  then have "value_t t \<in> {0..<16}" using assms by (simp only: board_inv_iff)
  then show "0 \<le> value_t t" by simp
qed

text \<open>
  Claim C3. On a board that satisfies the Board invariant, the win check returns true
  if and only if every tile is in its canonical place: position \<open>(3, 3)\<close> for value 0,
  position \<open>((v - 1) div 4, (v - 1) mod 4)\<close> for a value \<open>v\<close> other than 0. On any list
  of tiles with values from 0 on, exactly one tile out of its canonical place makes the
  check return false.
\<close>

theorem hasWon_exact:
  "(board_inv ts \<longrightarrow> (hasWon ts \<longleftrightarrow> (\<forall>t\<in>set ts. in_canonical_place t)))
   \<and> ((\<forall>t\<in>set ts. 0 \<le> value_t t) \<and> length (filter (\<lambda>t. \<not> in_canonical_place t) ts) = 1
        \<longrightarrow> \<not> hasWon ts)"
proof (intro conjI impI)
  assume "board_inv ts"
  then show "hasWon ts \<longleftrightarrow> (\<forall>t\<in>set ts. in_canonical_place t)"
    using board_values_nonneg hasWon_iff by blast
next
  assume a: "(\<forall>t\<in>set ts. 0 \<le> value_t t) \<and> length (filter (\<lambda>t. \<not> in_canonical_place t) ts) = 1"
  then have "filter (\<lambda>t. \<not> in_canonical_place t) ts \<noteq> []" by auto
  then have "\<exists>t\<in>set ts. \<not> in_canonical_place t"
    by (simp add: filter_empty_conv)
  then show "\<not> hasWon ts"
    using a hasWon_iff by blast
qed

text \<open>
  The solved board passes the check; the board after one slide and the list with one
  misplaced tile fail it.
\<close>

theorem hasWon_exact_witness:
  "board_inv (newTiles solved_values)
   \<and> list_all in_canonical_place (newTiles solved_values)
   \<and> hasWon (newTiles solved_values)
   \<and> board_inv moved_tiles
   \<and> \<not> hasWon moved_tiles
   \<and> list_all (\<lambda>t. 0 \<le> value_t t) misplaced_tiles
   \<and> length (filter (\<lambda>t. \<not> in_canonical_place t) misplaced_tiles) = 1
   \<and> \<not> hasWon misplaced_tiles"
proof -
  have c1: "list_all in_canonical_place (newTiles solved_values)"
    by (simp add: solved_tiles tile_of_def in_canonical_place_def GRID_SIZE_def)
  have w1: "hasWon (newTiles solved_values)"
    using hasWon_exact [of "newTiles solved_values"] solved_board_inv c1
    by (simp add: list_all_iff)
  have "moved_tiles = tiles (handleTileClick (tile_of 14 15 3 2) fresh_session)"
    by (simp add: slide_15_right)
  then have b2: "board_inv moved_tiles"
    using board_positions_after_move [OF solved_board_inv, of "tile_of 14 15 3 2" "tile_of 15 0 3 3"]
    by (simp add: solved_tiles moved_tiles_def tile_of_def)
  have "\<not> list_all in_canonical_place moved_tiles"
    by (simp add: moved_tiles_def tile_of_def in_canonical_place_def GRID_SIZE_def)
  then have w2: "\<not> hasWon moved_tiles"
    using hasWon_exact [of moved_tiles] b2 by (simp add: list_all_iff)
  have n3: "list_all (\<lambda>t. 0 \<le> value_t t) misplaced_tiles"
    by (simp add: misplaced_tiles_def tile_of_def)
  have l3: "length (filter (\<lambda>t. \<not> in_canonical_place t) misplaced_tiles) = 1"
    by (simp add: misplaced_tiles_def tile_of_def in_canonical_place_def GRID_SIZE_def)
  have w3: "\<not> hasWon misplaced_tiles"
    using hasWon_exact [of misplaced_tiles] n3 l3 by (simp add: list_all_iff)
  show ?thesis
    using solved_board_inv c1 w1 b2 w2 n3 l3 w3 by blast
qed












section \<open>Moves preserve solvability\<close>

lemma cross_count_Nil [simp]: "cross_count [] ys = 0" "cross_count xs [] = 0"
  by (simp_all add: cross_count_def)

lemma cross_count_Cons:
  "cross_count (x # xs) ys = length (filter (\<lambda>y. x > y) ys) + cross_count xs ys"
  by (simp add: cross_count_def)

lemma cross_count_append_left:
  "cross_count (xs @ xs') ys = cross_count xs ys + cross_count xs' ys"
  by (simp add: cross_count_def)

lemma cross_count_append_right:
  "cross_count xs (ys @ ys') = cross_count xs ys + cross_count xs ys'"
  by (induction xs) (simp_all add: cross_count_Cons)

lemma cross_count_mset_left:
  assumes "mset xs = mset xs'"
  shows "cross_count xs ys = cross_count xs' ys"
proof -
  have "cross_count zs ys = sum_mset (image_mset (\<lambda>x. length (filter (\<lambda>y. x > y) ys)) (mset zs))"
    for zs
    unfolding cross_count_def by (simp add: sum_mset_sum_list [symmetric] del: sum_mset_sum_list)
  then show ?thesis using assms by simp
qed

lemma cross_count_mset_right:
  assumes "mset ys = mset ys'"
  shows "cross_count xs ys = cross_count xs ys'"
proof -
  have "length (filter P ys) = length (filter P ys')" for P
  proof -
    have "mset (filter P ys) = mset (filter P ys')"
      using assms by simp
    then show ?thesis by (rule mset_eq_length)
  qed
  then show ?thesis by (simp add: cross_count_def)
qed

lemma inv_count_append:
  "inv_count (xs @ ys) = inv_count xs + inv_count ys + cross_count xs ys"
  by (induction xs) (simp_all add: cross_count_Cons)

lemma inv_count_middle:
  assumes "mset X = mset X'"
  shows "inv_count (A @ X @ B) + inv_count X' = inv_count (A @ X' @ B) + inv_count X"
proof -
  have 1: "cross_count A X = cross_count A X'"
    using assms by (rule cross_count_mset_right)
  have 2: "cross_count X B = cross_count X' B"
    using assms by (rule cross_count_mset_left)
  show ?thesis
    by (simp add: inv_count_append cross_count_append_right 1 2)
qed

lemma inv_count_rotate:
  assumes "v \<notin> set M"
  shows "inv_count (v # M) + inv_count (M @ [v]) = 2 * inv_count M + length M"
proof -
  have "cross_count M [v] = length (filter (\<lambda>m. m > v) M)"
    by (induction M) (simp_all add: cross_count_Cons)
  moreover have "filter (\<lambda>m. m > v) M = filter (\<lambda>m. \<not> v > m) M"
  proof (rule filter_cong [OF refl])
    fix x assume "x \<in> set M"
    then have "x \<noteq> v" using assms by auto
    then show "(x > v) = (\<not> v > x)" by auto
  qed
  moreover have "length (filter (\<lambda>m. v > m) M) + length (filter (\<lambda>m. \<not> v > m) M) = length M"
    by (rule sum_length_filter_compl)
  ultimately show ?thesis
    by (simp add: inv_count_append)
qed

lemma swap_decomposed:
  "swap (length A) (length A + 1 + length M) (A @ a # M @ b # B) = A @ b # M @ a # B"
proof -
  have "(A @ a # M @ b # B) ! (length A + 1 + length M) = b"
    by (simp add: nth_append)
  moreover have "(A @ a # M @ b # B) ! length A = a"
    by simp
  moreover have "(A @ b # M @ b # B)[length A + 1 + length M := a] = A @ b # M @ a # B"
    by (simp add: list_update_append)
  ultimately show ?thesis
    by (simp add: swap_def list_update_append del: append.simps)
qed

lemma list_split2:
  assumes "i < j" "j < length xs"
  shows "xs = take i xs @ xs ! i # take (j - i - 1) (drop (i + 1) xs) @ xs ! j # drop (j + 1) xs"
proof -
  have i: "i < length xs" using assms by simp
  have 1: "drop i xs = xs ! i # drop (i + 1) xs"
    using i by (simp add: Cons_nth_drop_Suc)
  have "drop (j - i - 1) (drop (i + 1) xs) = drop j xs"
    using assms by simp
  then have 2: "drop (j - i - 1) (drop (i + 1) xs) = xs ! j # drop (j + 1) xs"
    using assms(2) by (simp add: Cons_nth_drop_Suc)
  have "xs = take i xs @ drop i xs" by simp
  also have "\<dots> = take i xs @ xs ! i # drop (i + 1) xs" by (simp only: 1)
  also have "drop (i + 1) xs
      = take (j - i - 1) (drop (i + 1) xs) @ drop (j - i - 1) (drop (i + 1) xs)"
    by (simp only: append_take_drop_id)
  finally show ?thesis by (simp only: 2)
qed

lemma isSolvable_slide_from_front:
  assumes d: "distinct (A @ 0 # M @ v # B)"
    and len: "length (A @ 0 # M @ v # B) = 16"
    and shape: "(M = [] \<and> length A div 4 = (length A + 1) div 4) \<or> length M = 3"
  shows "isSolvable (A @ 0 # M @ v # B) \<longleftrightarrow> isSolvable (A @ v # M @ 0 # B)"
proof -
  let ?xs = "A @ 0 # M @ v # B" and ?ys = "A @ v # M @ 0 # B"
  let ?k = "length A" and ?k' = "length A + 1 + length M"
  have zA: "0 \<notin> set A" and zM: "0 \<notin> set M" and zB: "0 \<notin> set B" and v0: "v \<noteq> 0"
    and vM: "v \<notin> set M"
    using d by auto
  have fA: "filter (\<lambda>x. x \<noteq> 0) A = A" using zA by (auto simp: filter_id_conv)
  have fM: "filter (\<lambda>x. x \<noteq> 0) M = M" using zM by (auto simp: filter_id_conv)
  have fB: "filter (\<lambda>x. x \<noteq> 0) B = B" using zB by (auto simp: filter_id_conv)
  have fx: "filter (\<lambda>x. x \<noteq> 0) ?xs = A @ (M @ [v]) @ B"
    using v0 by (simp add: fA fM fB)
  have fy: "filter (\<lambda>x. x \<noteq> 0) ?ys = A @ (v # M) @ B"
    using v0 by (simp add: fA fM fB)
  have dy: "distinct ?ys" using d by auto
  have k: "?k < 16" "?k < length ?xs" "?xs ! ?k = 0"
    using len by (simp_all add: nth_append)
  have k': "?k' < 16" "?k' < length ?ys" "?ys ! ?k' = 0"
    using len by (simp_all add: nth_append)
  note sx = isSolvable_at [OF d k]
  note sy = isSolvable_at [OF dy k']
  have i1: "inversions_spec (filter (\<lambda>x. x \<noteq> 0) ?xs) = inv_count (A @ (M @ [v]) @ B)"
    by (simp only: fx inv_count_spec)
  have i2: "inversions_spec (filter (\<lambda>x. x \<noteq> 0) ?ys) = inv_count (A @ (v # M) @ B)"
    by (simp only: fy inv_count_spec)
  have mid: "inv_count (A @ (M @ [v]) @ B) + inv_count (v # M)
             = inv_count (A @ (v # M) @ B) + inv_count (M @ [v])"
    by (rule inv_count_middle) simp
  have rot: "inv_count (v # M) + inv_count (M @ [v]) = 2 * inv_count M + length M"
    using vM by (rule inv_count_rotate)
  show ?thesis
  proof (cases "M = []")
    case True
    then have "length A div 4 = (length A + 1) div 4" using shape by simp
    then have "int (length A div 4) = int ((length A + 1) div 4)" by (rule arg_cong)
    then have "int (length A) div 4 = int (length A + 1) div 4"
      by (simp only: zdiv_int of_nat_numeral)
    then have row: "int ?k div 4 = int ?k' div 4"
      using True by simp
    have "inv_count (A @ (M @ [v]) @ B) = inv_count (A @ (v # M) @ B)"
      using True by simp
    then show ?thesis
      unfolding sx sy i1 i2 Let_def row by simp
  next
    case False
    then have lm: "length M = 3" using shape by simp
    have par: "even (inv_count (A @ (M @ [v]) @ B)) \<longleftrightarrow> odd (inv_count (A @ (v # M) @ B))"
      using mid rot lm by presburger
    have "int ?k' = int ?k + 4" using lm by simp
    then have "int ?k' div 4 = int ?k div 4 + 1" by simp
    then have row: "even (4 - int ?k div 4) \<longleftrightarrow> odd (4 - int ?k' div 4)"
      by simp
    show ?thesis
      unfolding sx sy i1 i2 Let_def using par row by blast
  qed
qed

lemma isSolvable_swap_empty:
  assumes d: "distinct (A @ a # M @ b # B)"
    and len: "length (A @ a # M @ b # B) = 16"
    and z: "a = 0 \<or> b = 0"
    and shape: "(M = [] \<and> length A div 4 = (length A + 1) div 4) \<or> length M = 3"
  shows "isSolvable (A @ b # M @ a # B) \<longleftrightarrow> isSolvable (A @ a # M @ b # B)"
proof (cases "a = 0")
  case True
  show ?thesis
    using isSolvable_slide_from_front [of A M b B] d len shape unfolding True by simp
next
  case False
  then have b: "b = 0" using z by simp
  have d': "distinct (A @ 0 # M @ a # B)" using d unfolding b by auto
  have len': "length (A @ 0 # M @ a # B) = 16" using len by simp
  show ?thesis
    using isSolvable_slide_from_front [OF d' len' shape] unfolding b by simp
qed

lemma grid_cell_bounds:
  assumes "p \<in> grid_cells"
  shows "0 \<le> row p" "row p < 4" "0 \<le> col p" "col p < 4"
  using assms by (auto simp: grid_cells_def GRID_SIZE_def)

lemma cell_index_inj:
  assumes "p \<in> grid_cells" "q \<in> grid_cells" "cell_index p = cell_index q"
  shows "p = q"
  using grid_cells_index(2) [OF assms(1)] grid_cells_index(2) [OF assms(2)] assms(3) by metis

lemma grid_cell_nat:
  assumes "p \<in> grid_cells"
  obtains r c where "row p = int r" "col p = int c" "r < 4" "c < 4" "cell_index p = r * 4 + c"
proof -
  note b = grid_cell_bounds [OF assms]
  have 1: "row p = int (nat (row p))" "col p = int (nat (col p))" using b by simp_all
  have 2: "nat (row p) < 4" "nat (col p) < 4" using b by simp_all
  have "row p * 4 + col p = int (nat (row p) * 4 + nat (col p))" using b by simp
  then have 3: "cell_index p = nat (row p) * 4 + nat (col p)"
    unfolding cell_index_def GRID_SIZE_def by (simp only: nat_int)
  show thesis using that [OF 1 2 3] .
qed

lemma quarter_div: "c < 4 \<Longrightarrow> (r * 4 + c) div 4 = (r::nat)"
  by simp

lemma adjacent_cell_indices:
  assumes "p \<in> grid_cells" "q \<in> grid_cells" "isAdjacent p q"
  shows "(row p = row q \<and>
           ((cell_index p + 1 = cell_index q \<and> cell_index p div 4 = (cell_index p + 1) div 4)
            \<or> (cell_index q + 1 = cell_index p \<and> cell_index q div 4 = (cell_index q + 1) div 4)))
         \<or> (col p = col q \<and> (cell_index p + 4 = cell_index q \<or> cell_index q + 4 = cell_index p))"
proof -
  obtain rp cp where p: "row p = int rp" "col p = int cp" "rp < 4" "cp < 4"
    "cell_index p = rp * 4 + cp"
    using assms(1) by (rule grid_cell_nat)
  obtain rq cq where q: "row q = int rq" "col q = int cq" "rq < 4" "cq < 4"
    "cell_index q = rq * 4 + cq"
    using assms(2) by (rule grid_cell_nat)
  have "(rp = rq \<and> (cp + 1 = cq \<or> cq + 1 = cp)) \<or> (cp = cq \<and> (rp + 1 = rq \<or> rq + 1 = rp))"
    using assms(3) unfolding isAdjacent_def p(1,2) q(1,2) by linarith
  then consider (right) "rp = rq" "cp + 1 = cq" | (left) "rp = rq" "cq + 1 = cp"
    | (down) "cp = cq" "rp + 1 = rq" | (up) "cp = cq" "rq + 1 = rp"
    by blast
  then show ?thesis
  proof cases
    case right
    have "cell_index p + 1 = cell_index q" unfolding p(5) q(5) using right by simp
    moreover have "cell_index p div 4 = (cell_index p + 1) div 4"
      using quarter_div [OF p(4), of rp] quarter_div [OF q(4), of rq] right
      unfolding p(5) by (simp add: add.assoc)
    ultimately show ?thesis using right(1) p(1) q(1) by simp
  next
    case left
    have "cell_index q + 1 = cell_index p" unfolding p(5) q(5) using left by simp
    moreover have "cell_index q div 4 = (cell_index q + 1) div 4"
      using quarter_div [OF p(4), of rp] quarter_div [OF q(4), of rq] left
      unfolding q(5) by (simp add: add.assoc)
    ultimately show ?thesis using left(1) p(1) q(1) by simp
  next
    case down
    have "cell_index p + 4 = cell_index q" unfolding p(5) q(5) using down by auto
    then show ?thesis using down(1) p(2) q(2) by simp
  next
    case up
    have "cell_index q + 4 = cell_index p" unfolding p(5) q(5) using up by auto
    then show ?thesis using up(1) p(2) q(2) by simp
  qed
qed

lemma swap_nth:
  assumes "i < length xs" "j < length xs"
  shows "swap i j xs ! k = (if k = j then xs ! i else if k = i then xs ! j else xs ! k)"
  using assms by (simp add: swap_def nth_list_update)

lemma swap_commute: "swap i j xs = swap j i xs"
  by (cases "i = j") (simp_all add: swap_def list_update_swap)

lemma linear_values_distinct:
  assumes "board_inv ts" "linear_values ts = Some vs"
  shows "distinct vs"
proof -
  have c: "length vs = 16" "\<forall>t\<in>set ts. vs ! cell_index (position t) = value_t t"
    using assms(2) unfolding linear_values_char [OF assms(1)] by simp_all
  show ?thesis
    unfolding distinct_conv_nth
  proof (intro allI impI)
    fix i j assume i: "i < length vs" and j: "j < length vs" and ne: "i \<noteq> j"
    obtain ti where ti: "ti \<in> set ts" "position ti = cell_of i"
      using board_tile_at [OF assms(1), of i] i c(1) by auto
    obtain tj where tj: "tj \<in> set ts" "position tj = cell_of j"
      using board_tile_at [OF assms(1), of j] j c(1) by auto
    have vi: "vs ! i = value_t ti" using c(2) ti by (metis cell_index_cell_of)
    have vj: "vs ! j = value_t tj" using c(2) tj by (metis cell_index_cell_of)
    have "cell_of i \<noteq> cell_of j" using ne by (metis cell_index_cell_of)
    then have "ti \<noteq> tj" using ti(2) tj(2) by auto
    then have "value_t ti \<noteq> value_t tj"
      using board_value_inj [OF assms(1) ti(1) tj(1)] by blast
    then show "vs ! i \<noteq> vs ! j" using vi vj by simp
  qed
qed

lemma linear_values_after_move:
  assumes b: "board_inv ts" and c: "c \<in> set ts" and e: "e \<in> set ts" and ce: "c \<noteq> e"
    and l: "linear_values ts = Some vs"
  shows "linear_values (map (\<lambda>tile. if tile = c then tile\<lparr>position := position e\<rparr>
                               else if tile = e then tile\<lparr>position := position c\<rparr>
                               else tile) ts)
         = Some (swap (cell_index (position c)) (cell_index (position e)) vs)"
proof -
  let ?f = "\<lambda>tile. if tile = c then tile\<lparr>position := position e\<rparr>
                    else if tile = e then tile\<lparr>position := position c\<rparr> else tile"
  let ?ic = "cell_index (position c)" and ?ie = "cell_index (position e)"
  have g: "set (map position ts) = grid_cells" using b by (simp only: board_inv_iff)
  have ch: "length vs = 16" "\<forall>t\<in>set ts. vs ! cell_index (position t) = value_t t"
    using l unfolding linear_values_char [OF b] by simp_all
  have in_grid: "position t \<in> grid_cells" if "t \<in> set ts" for t
    using g that by auto
  have ic: "?ic < length vs" and ie: "?ie < length vs"
    using grid_cells_index(1) [OF in_grid [OF c]] grid_cells_index(1) [OF in_grid [OF e]] ch(1)
    by simp_all
  have pne: "position c \<noteq> position e"
    using board_position_inj [OF b c e] ce by blast
  have ine: "?ic \<noteq> ?ie"
    using cell_index_inj [OF in_grid [OF c] in_grid [OF e]] pne by blast
  have b': "board_inv (map ?f ts)" using b c e by (rule board_positions_after_move)
  have "swap ?ic ?ie vs ! cell_index (position t') = value_t t'"
    if mem: "t' \<in> set (map ?f ts)" for t'
  proof -
    obtain t where t: "t \<in> set ts" "t' = ?f t" using mem by auto
    show ?thesis
    proof (cases "t = c")
      case True
      then have "t' = c\<lparr>position := position e\<rparr>" using t(2) by simp
      then show ?thesis
        using swap_nth [OF ic ie, of ?ie] ch(2) c by simp
    next
      case nc: False
      show ?thesis
      proof (cases "t = e")
        case True
        then have "t' = e\<lparr>position := position c\<rparr>" using t(2) nc by simp
        then show ?thesis
          using swap_nth [OF ic ie, of ?ic] ch(2) e ine by simp
      next
        case ne: False
        have t': "t' = t" using t(2) nc ne by simp
        have "position t \<noteq> position c"
          using board_position_inj [OF b t(1) c] nc by blast
        then have 1: "cell_index (position t) \<noteq> ?ic"
          using cell_index_inj [OF in_grid [OF t(1)] in_grid [OF c]] by blast
        have "position t \<noteq> position e"
          using board_position_inj [OF b t(1) e] ne by blast
        then have 2: "cell_index (position t) \<noteq> ?ie"
          using cell_index_inj [OF in_grid [OF t(1)] in_grid [OF e]] by blast
        show ?thesis
          unfolding t' using swap_nth [OF ic ie, of "cell_index (position t)"] 1 2 ch(2) t(1)
          by simp
      qed
    qed
  qed
  then show ?thesis
    unfolding linear_values_char [OF b'] using ch(1) by (simp add: swap_length)
qed

lemma filter_slide_adjacent:
  assumes "a = 0 \<or> b = 0"
  shows "filter (\<lambda>x. x \<noteq> 0) (A @ b # a # B) = filter (\<lambda>x. x \<noteq> (0::int)) (A @ a # b # B)"
  using assms by auto

lemma inversions_slide_parity:
  assumes d: "distinct (A @ a # M @ b # B)" and z: "a = 0 \<or> b = 0"
  shows "even (inv_count (filter (\<lambda>x. x \<noteq> 0) (A @ a # M @ b # B))
              + inv_count (filter (\<lambda>x. x \<noteq> 0) (A @ b # M @ a # B)))
         \<longleftrightarrow> even (length M)"
proof -
  define v where "v = (if a = 0 then b else a)"
  have zA: "0 \<notin> set A" and zM: "0 \<notin> set M" and zB: "0 \<notin> set B"
    using d z by auto
  have v0: "v \<noteq> 0" and vM: "v \<notin> set M"
    using d z by (auto simp: v_def)
  have fA: "filter (\<lambda>x. x \<noteq> 0) A = A" using zA by (auto simp: filter_id_conv)
  have fM: "filter (\<lambda>x. x \<noteq> 0) M = M" using zM by (auto simp: filter_id_conv)
  have fB: "filter (\<lambda>x. x \<noteq> 0) B = B" using zB by (auto simp: filter_id_conv)
  have mid: "inv_count (A @ (M @ [v]) @ B) + inv_count (v # M)
             = inv_count (A @ (v # M) @ B) + inv_count (M @ [v])"
    by (rule inv_count_middle) simp
  have rot: "inv_count (v # M) + inv_count (M @ [v]) = 2 * inv_count M + length M"
    using vM by (rule inv_count_rotate)
  have par: "even (inv_count (A @ (M @ [v]) @ B) + inv_count (A @ (v # M) @ B))
             \<longleftrightarrow> even (length M)"
    using mid rot by presburger
  show ?thesis
  proof (cases "a = 0")
    case True
    then have "b = v" "b \<noteq> 0" using v0 by (simp_all add: v_def)
    then have "filter (\<lambda>x. x \<noteq> 0) (A @ a # M @ b # B) = A @ (M @ [v]) @ B"
      and "filter (\<lambda>x. x \<noteq> 0) (A @ b # M @ a # B) = A @ (v # M) @ B"
      using True by (simp_all add: fA fM fB)
    then show ?thesis using par by simp
  next
    case False
    then have "a = v" "b = 0" using z by (simp_all add: v_def)
    then have "filter (\<lambda>x. x \<noteq> 0) (A @ a # M @ b # B) = A @ (v # M) @ B"
      and "filter (\<lambda>x. x \<noteq> 0) (A @ b # M @ a # B) = A @ (M @ [v]) @ B"
      using v0 by (simp_all add: fA fM fB)
    then show ?thesis using par by (simp add: add.commute)
  qed
qed

lemma isSolvable_swap_cells:
  assumes len: "length vs = 16" and d: "distinct vs" and ij: "i < j" "j < 16"
    and z: "vs ! i = 0 \<or> vs ! j = 0"
    and shape: "(j = i + 1 \<and> i div 4 = (i + 1) div 4) \<or> j = i + 4"
  shows "(isSolvable (swap i j vs) \<longleftrightarrow> isSolvable vs)
    \<and> (j = i + 1 \<longrightarrow>
         filter (\<lambda>x. x \<noteq> 0) (swap i j vs) = filter (\<lambda>x. x \<noteq> 0) vs)
    \<and> (j = i + 4 \<longrightarrow>
         (even (inversions_spec (filter (\<lambda>x. x \<noteq> 0) (swap i j vs)))
          \<longleftrightarrow> odd (inversions_spec (filter (\<lambda>x. x \<noteq> 0) vs))))"
proof -
  define A where "A = take i vs"
  define M where "M = take (j - i - 1) (drop (i + 1) vs)"
  define B where "B = drop (j + 1) vs"
  have jl: "j < length vs" using ij(2) len by simp
  have dec: "vs = A @ vs ! i # M @ vs ! j # B"
    unfolding A_def M_def B_def using ij(1) jl by (rule list_split2)
  have lA: "length A = i" unfolding A_def using ij jl by simp
  have lM: "length M = j - i - 1" unfolding M_def using ij jl by simp
  have idx: "i + 1 + length M = j" using lM ij(1) by simp
  have "swap (length A) (length A + 1 + length M) vs
        = swap (length A) (length A + 1 + length M) (A @ vs ! i # M @ vs ! j # B)"
    using dec by (rule arg_cong)
  also have "\<dots> = A @ vs ! j # M @ vs ! i # B"
    by (rule swap_decomposed)
  finally have sw: "swap i j vs = A @ vs ! j # M @ vs ! i # B"
    unfolding lA idx .
  have d': "distinct (A @ vs ! i # M @ vs ! j # B)" using d dec by simp
  have len': "length (A @ vs ! i # M @ vs ! j # B) = 16" using len dec by simp
  have shape': "(M = [] \<and> length A div 4 = (length A + 1) div 4) \<or> length M = 3"
    using shape lA lM by auto
  have 1: "isSolvable (swap i j vs) \<longleftrightarrow> isSolvable vs"
    using isSolvable_swap_empty [OF d' len' z shape'] unfolding sw dec [symmetric] .
  have 2: "filter (\<lambda>x. x \<noteq> 0) (swap i j vs) = filter (\<lambda>x. x \<noteq> 0) vs" if h: "j = i + 1"
  proof -
    have "M = []" using lM h by simp
    then have "filter (\<lambda>x. x \<noteq> 0) (A @ vs ! j # M @ vs ! i # B)
               = filter (\<lambda>x. x \<noteq> 0) (A @ vs ! i # M @ vs ! j # B)"
      using filter_slide_adjacent [OF z, of A B] by simp
    then show ?thesis unfolding sw dec [symmetric] .
  qed
  have 3: "even (inversions_spec (filter (\<lambda>x. x \<noteq> 0) (swap i j vs)))
          \<longleftrightarrow> odd (inversions_spec (filter (\<lambda>x. x \<noteq> 0) vs))" if v: "j = i + 4"
  proof -
    have "length M = 3" using lM v by simp
    then have "odd (inv_count (filter (\<lambda>x. x \<noteq> 0) (A @ vs ! i # M @ vs ! j # B))
              + inv_count (filter (\<lambda>x. x \<noteq> 0) (A @ vs ! j # M @ vs ! i # B)))"
      using inversions_slide_parity [OF d' z] by simp
    then have "odd (inv_count (filter (\<lambda>x. x \<noteq> 0) vs)
                   + inv_count (filter (\<lambda>x. x \<noteq> 0) (swap i j vs)))"
      unfolding sw dec [symmetric] .
    then show ?thesis by (simp add: inv_count_spec)
  qed
  show ?thesis using 1 2 3 by blast
qed

lemma move_preserves_solvable:
  assumes b: "board_inv ts" and c: "c \<in> set ts" and e: "e \<in> set ts" and ve: "value_t e = 0"
    and adj: "isAdjacent (position c) (position e)"
    and l: "linear_values ts = Some vs"
  shows "\<exists>vs'. linear_values (map (\<lambda>tile. if tile = c then tile\<lparr>position := position e\<rparr>
                                      else if tile = e then tile\<lparr>position := position c\<rparr>
                                      else tile) ts) = Some vs'
          \<and> (isSolvable vs' \<longleftrightarrow> isSolvable vs)
          \<and> (row (position c) = row (position e) \<longrightarrow>
                filter (\<lambda>x. x \<noteq> 0) vs' = filter (\<lambda>x. x \<noteq> 0) vs)
          \<and> (col (position c) = col (position e) \<longrightarrow>
                (even (inversions_spec (filter (\<lambda>x. x \<noteq> 0) vs'))
                 \<longleftrightarrow> odd (inversions_spec (filter (\<lambda>x. x \<noteq> 0) vs))))"
proof -
  let ?ic = "cell_index (position c)" and ?ie = "cell_index (position e)"
  have ce: "c \<noteq> e" using adj isAdjacent_irrefl by auto
  have g: "set (map position ts) = grid_cells" using b by (simp only: board_inv_iff)
  have pc: "position c \<in> grid_cells" and pe: "position e \<in> grid_cells"
    using g c e by auto
  have ch: "length vs = 16" "\<forall>t\<in>set ts. vs ! cell_index (position t) = value_t t"
    using l unfolding linear_values_char [OF b] by simp_all
  have d: "distinct vs" using b l by (rule linear_values_distinct)
  have z: "vs ! ?ie = 0" using ch(2) e ve by simp
  have ic: "?ic < 16" and ie: "?ie < 16"
    using grid_cells_index(1) [OF pc] grid_cells_index(1) [OF pe] by simp_all
  have pne: "position c \<noteq> position e" using adj isAdjacent_irrefl by auto
  have rc: "\<not> (row (position c) = row (position e) \<and> col (position c) = col (position e))"
    using pne by (cases "position c", cases "position e") auto
  note lv = linear_values_after_move [OF b c e ce l]
  have goal: "(isSolvable (swap ?ic ?ie vs) \<longleftrightarrow> isSolvable vs)
      \<and> (row (position c) = row (position e) \<longrightarrow>
            filter (\<lambda>x. x \<noteq> 0) (swap ?ic ?ie vs) = filter (\<lambda>x. x \<noteq> 0) vs)
      \<and> (col (position c) = col (position e) \<longrightarrow>
            (even (inversions_spec (filter (\<lambda>x. x \<noteq> 0) (swap ?ic ?ie vs)))
             \<longleftrightarrow> odd (inversions_spec (filter (\<lambda>x. x \<noteq> 0) vs))))"
  proof -
    consider (right) "row (position c) = row (position e)" "?ic + 1 = ?ie"
        "?ic div 4 = (?ic + 1) div 4"
      | (left) "row (position c) = row (position e)" "?ie + 1 = ?ic"
        "?ie div 4 = (?ie + 1) div 4"
      | (down) "col (position c) = col (position e)" "?ic + 4 = ?ie"
      | (up) "col (position c) = col (position e)" "?ie + 4 = ?ic"
      using adjacent_cell_indices [OF pc pe adj] by blast
    then show ?thesis
    proof cases
      case right
      have "?ic < ?ie" using right(2) by simp
      then have s: "(isSolvable (swap ?ic ?ie vs) \<longleftrightarrow> isSolvable vs)
        \<and> (?ie = ?ic + 1 \<longrightarrow>
             filter (\<lambda>x. x \<noteq> 0) (swap ?ic ?ie vs) = filter (\<lambda>x. x \<noteq> 0) vs)
        \<and> (?ie = ?ic + 4 \<longrightarrow>
             (even (inversions_spec (filter (\<lambda>x. x \<noteq> 0) (swap ?ic ?ie vs)))
              \<longleftrightarrow> odd (inversions_spec (filter (\<lambda>x. x \<noteq> 0) vs))))"
        using right(2,3) z ie by (intro isSolvable_swap_cells [OF ch(1) d]) auto
      show ?thesis using s right(1,2) rc by auto
    next
      case left
      have "?ie < ?ic" using left(2) by simp
      then have s: "(isSolvable (swap ?ie ?ic vs) \<longleftrightarrow> isSolvable vs)
        \<and> (?ic = ?ie + 1 \<longrightarrow>
             filter (\<lambda>x. x \<noteq> 0) (swap ?ie ?ic vs) = filter (\<lambda>x. x \<noteq> 0) vs)
        \<and> (?ic = ?ie + 4 \<longrightarrow>
             (even (inversions_spec (filter (\<lambda>x. x \<noteq> 0) (swap ?ie ?ic vs)))
              \<longleftrightarrow> odd (inversions_spec (filter (\<lambda>x. x \<noteq> 0) vs))))"
        using left(2,3) z ic by (intro isSolvable_swap_cells [OF ch(1) d]) auto
      show ?thesis
        unfolding swap_commute [of ?ic ?ie] using s left(1,2) rc by auto
    next
      case down
      have "?ic < ?ie" using down(2) by simp
      then have s: "(isSolvable (swap ?ic ?ie vs) \<longleftrightarrow> isSolvable vs)
        \<and> (?ie = ?ic + 1 \<longrightarrow>
             filter (\<lambda>x. x \<noteq> 0) (swap ?ic ?ie vs) = filter (\<lambda>x. x \<noteq> 0) vs)
        \<and> (?ie = ?ic + 4 \<longrightarrow>
             (even (inversions_spec (filter (\<lambda>x. x \<noteq> 0) (swap ?ic ?ie vs)))
              \<longleftrightarrow> odd (inversions_spec (filter (\<lambda>x. x \<noteq> 0) vs))))"
        using down(2) z ie by (intro isSolvable_swap_cells [OF ch(1) d]) auto
      show ?thesis using s down rc by auto
    next
      case up
      have "?ie < ?ic" using up(2) by simp
      then have s: "(isSolvable (swap ?ie ?ic vs) \<longleftrightarrow> isSolvable vs)
        \<and> (?ic = ?ie + 1 \<longrightarrow>
             filter (\<lambda>x. x \<noteq> 0) (swap ?ie ?ic vs) = filter (\<lambda>x. x \<noteq> 0) vs)
        \<and> (?ic = ?ie + 4 \<longrightarrow>
             (even (inversions_spec (filter (\<lambda>x. x \<noteq> 0) (swap ?ie ?ic vs)))
              \<longleftrightarrow> odd (inversions_spec (filter (\<lambda>x. x \<noteq> 0) vs))))"
        using up(2) z ic by (intro isSolvable_swap_cells [OF ch(1) d]) auto
      show ?thesis
        unfolding swap_commute [of ?ic ?ie] using s up rc by auto
    qed
  qed
  show ?thesis using lv goal by blast
qed

lemma initializeGame_board:
  assumes "random_ok rnd" and "initializeGame rnd st = Some st'"
  shows "board_inv (tiles st') \<and> (\<exists>vs. linear_values (tiles st') = Some vs \<and> isSolvable vs)"
proof -
  obtain vs where l: "shuffle_until_solvable rnd 0 (map int [0..<16]) = Some vs"
    and t: "tiles st' = newTiles vs"
    using assms(2) by (rule initializeGame_Some) simp
  have s: "isSolvable vs" and m: "mset vs = mset (map int [0..<16])"
    using shuffle_until_solvable_sound [OF l assms(1)] by simp_all
  show ?thesis
    unfolding t using s board_inv_newTiles [OF m] linear_values_newTiles [OF m] by blast
qed

lemma click_keeps_solvable:
  assumes b: "board_inv (tiles st)" and c: "c \<in> set (tiles st)"
    and l: "linear_values (tiles st) = Some vs" and s: "isSolvable vs"
  shows "board_inv (tiles (handleTileClick c st))
         \<and> (\<exists>vs'. linear_values (tiles (handleTileClick c st)) = Some vs' \<and> isSolvable vs')"
  using b c
proof (cases rule: handleTileClick_cases)
  case same
  then show ?thesis using b l s by simp
next
  case (moved e)
  let ?ts' = "map (\<lambda>tile. if tile = c then tile\<lparr>position := position e\<rparr>
                          else if tile = e then tile\<lparr>position := position c\<rparr>
                          else tile) (tiles st)"
  have t: "tiles (handleTileClick c st) = ?ts'" unfolding moved(6) by simp
  have "board_inv ?ts'" using b c moved(1) by (rule board_positions_after_move)
  moreover have "\<exists>vs'. linear_values ?ts' = Some vs' \<and> isSolvable vs'"
    using move_preserves_solvable [OF b c moved(1,2,4) l] s by blast
  ultimately show ?thesis unfolding t by blast
qed

lemma reachable_solvable:
  "reachable st \<Longrightarrow>
   tiles st = [] \<or>
   (board_inv (tiles st) \<and> (\<exists>vs. linear_values (tiles st) = Some vs \<and> isSolvable vs))"
proof (induction rule: reachable.induct)
  case reachable_init
  then show ?case by (simp add: initialSession_def)
next
  case (reachable_step st ev st')
  show ?case
  proof (cases ev)
    case (NewGame rnd)
    then show ?thesis
      using reachable_step.hyps(2,3) initializeGame_board by auto
  next
    case (Click tile)
    then have m: "tile \<in> set (tiles st)" and s: "st' = handleTileClick tile st"
      using reachable_step.hyps(3) by (auto split: if_splits)
    then have "tiles st \<noteq> []" by auto
    then obtain vs where "board_inv (tiles st)" "linear_values (tiles st) = Some vs" "isSolvable vs"
      using reachable_step.IH by blast
    then show ?thesis
      unfolding s using click_keeps_solvable [OF _ m] by blast
  next
    case WinCheck
    then have "tiles st' = tiles st"
      using reachable_step.hyps(3) by (auto simp: winCheck_def)
    then show ?thesis using reachable_step.IH by simp
  next
    case Tick
    then have "tiles st' = tiles st"
      using reachable_step.hyps(3) by (auto simp: tick_def)
    then show ?thesis using reachable_step.IH by simp
  next
    case ResetTimer
    then have "tiles st' = tiles st"
      using reachable_step.hyps(3) by (auto simp: resetTimer_def)
    then show ?thesis using reachable_step.IH by simp
  next
    case ToggleDarkMode
    then have "tiles st' = tiles st"
      using reachable_step.hyps(3) by (auto simp: toggleDarkMode_def)
    then show ?thesis using reachable_step.IH by simp
  qed
qed

text \<open>
  Claim C10. A click on a tile of a board whose row-major linear value sequence is
  solvable leaves a board whose linear value sequence is solvable. When the click moves
  a tile (adjacent to the empty tile, session not won): a slide along a row leaves the
  sequence without 0, hence the inversion count, as it was, and the empty cell stays in
  its row; a slide along a column changes the parity of the inversion count, and the
  empty cell moves by one row. With the guarantee of the new game, the board of every
  reachable session is solvable.
\<close>

theorem moves_preserve_solvability:
  "(board_inv (tiles st) \<and> c \<in> set (tiles st) \<and> linear_values (tiles st) = Some vs \<and> isSolvable vs
      \<longrightarrow> (\<exists>vs'. linear_values (tiles (handleTileClick c st)) = Some vs' \<and> isSolvable vs'))
   \<and> (board_inv (tiles st) \<and> c \<in> set (tiles st) \<and> e \<in> set (tiles st) \<and> value_t e = 0
       \<and> isAdjacent (position c) (position e) \<and> \<not> isWon st
       \<and> linear_values (tiles st) = Some vs
      \<longrightarrow> (\<exists>vs'. linear_values (tiles (handleTileClick c st)) = Some vs'
            \<and> (row (position c) = row (position e) \<longrightarrow>
                  filter (\<lambda>x. x \<noteq> 0) vs' = filter (\<lambda>x. x \<noteq> 0) vs)
            \<and> (col (position c) = col (position e) \<longrightarrow>
                  \<bar>row (position c) - row (position e)\<bar> = 1
                  \<and> (even (inversions_spec (filter (\<lambda>x. x \<noteq> 0) vs'))
                      \<longleftrightarrow> odd (inversions_spec (filter (\<lambda>x. x \<noteq> 0) vs))))))
   \<and> (reachable st2 \<and> tiles st2 \<noteq> []
      \<longrightarrow> board_inv (tiles st2)
          \<and> (\<exists>ws. linear_values (tiles st2) = Some ws \<and> isSolvable ws))"
proof (intro conjI impI)
  assume "board_inv (tiles st) \<and> c \<in> set (tiles st) \<and> linear_values (tiles st) = Some vs
          \<and> isSolvable vs"
  then show "\<exists>vs'. linear_values (tiles (handleTileClick c st)) = Some vs' \<and> isSolvable vs'"
    using click_keeps_solvable by blast
next
  assume a: "board_inv (tiles st) \<and> c \<in> set (tiles st) \<and> e \<in> set (tiles st) \<and> value_t e = 0
       \<and> isAdjacent (position c) (position e) \<and> \<not> isWon st
       \<and> linear_values (tiles st) = Some vs"
  then have b: "board_inv (tiles st)" and c: "c \<in> set (tiles st)" and e: "e \<in> set (tiles st)"
    and ve: "value_t e = 0" and adj: "isAdjacent (position c) (position e)"
    and nw: "\<not> isWon st" and l: "linear_values (tiles st) = Some vs"
    by simp_all
  have t: "tiles (handleTileClick c st)
           = map (\<lambda>tile. if tile = c then tile\<lparr>position := position e\<rparr>
                          else if tile = e then tile\<lparr>position := position c\<rparr>
                          else tile) (tiles st)"
    unfolding handleTileClick_adjacent [OF b e ve c adj nw] by simp
  have r: "col (position c) = col (position e) \<longrightarrow> \<bar>row (position c) - row (position e)\<bar> = 1"
    using adj by (auto simp: isAdjacent_def)
  show "\<exists>vs'. linear_values (tiles (handleTileClick c st)) = Some vs'
            \<and> (row (position c) = row (position e) \<longrightarrow>
                  filter (\<lambda>x. x \<noteq> 0) vs' = filter (\<lambda>x. x \<noteq> 0) vs)
            \<and> (col (position c) = col (position e) \<longrightarrow>
                  \<bar>row (position c) - row (position e)\<bar> = 1
                  \<and> (even (inversions_spec (filter (\<lambda>x. x \<noteq> 0) vs'))
                      \<longleftrightarrow> odd (inversions_spec (filter (\<lambda>x. x \<noteq> 0) vs))))"
    unfolding t using move_preserves_solvable [OF b c e ve adj l] r by blast
next
  assume a: "reachable st2 \<and> tiles st2 \<noteq> []"
  then show "board_inv (tiles st2)" using reachable_solvable by blast
  from a show "\<exists>ws. linear_values (tiles st2) = Some ws \<and> isSolvable ws"
    using reachable_solvable by blast
qed

text \<open>
  Sliding tile 11 down into the empty cell of the example board: the board stays
  solvable and the parity of the inversion count changes.
\<close>

theorem moves_preserve_solvability_witness:
  "board_inv (tiles example_session)
   \<and> tile_of 10 11 2 2 \<in> set (tiles example_session)
   \<and> tile_of 14 0 3 2 \<in> set (tiles example_session)
   \<and> value_t (tile_of 14 0 3 2) = 0
   \<and> isAdjacent (position (tile_of 10 11 2 2)) (position (tile_of 14 0 3 2))
   \<and> \<not> isWon example_session
   \<and> linear_values (tiles example_session) = Some example_values
   \<and> isSolvable example_values
   \<and> (\<exists>vs'. linear_values (tiles (handleTileClick (tile_of 10 11 2 2) example_session)) = Some vs'
         \<and> isSolvable vs'
         \<and> (even (inversions_spec (filter (\<lambda>x. x \<noteq> 0) vs'))
              \<longleftrightarrow> odd (inversions_spec (filter (\<lambda>x. x \<noteq> 0) example_values))))
   \<and> reachable won_session
   \<and> tiles won_session \<noteq> []
   \<and> (\<exists>ws. linear_values (tiles won_session) = Some ws \<and> isSolvable ws)"
proof -
  have ts: "tiles example_session = newTiles example_values"
    by (simp add: example_session_def)
  have b: "board_inv (tiles example_session)"
    unfolding ts by (rule example_board_inv)
  have c: "tile_of 10 11 2 2 \<in> set (tiles example_session)"
    and e: "tile_of 14 0 3 2 \<in> set (tiles example_session)"
    unfolding ts example_tiles by simp_all
  have z: "value_t (tile_of 14 0 3 2) = 0" by (simp add: tile_of_def)
  have a: "isAdjacent (position (tile_of 10 11 2 2)) (position (tile_of 14 0 3 2))"
    by (simp add: isAdjacent_def tile_of_def)
  have col: "col (position (tile_of 10 11 2 2)) = col (position (tile_of 14 0 3 2))"
    by (simp add: tile_of_def)
  have nw: "\<not> isWon example_session" by (simp add: example_session_def)
  have "mset example_values = mset (map int [0..<16])"
    by (rule mset_values_16) (simp_all add: example_values_def)
  then have l: "linear_values (tiles example_session) = Some example_values"
    unfolding ts by (rule linear_values_newTiles)
  have s: "isSolvable example_values"
    by (simp add: example_values_def isSolvable_def outer_loop_eq js_rem_def indexOf_def
        EMPTY_TILE_VALUE_def GRID_SIZE_def)
  note t = moves_preserve_solvability
    [where st = example_session and c = "tile_of 10 11 2 2" and e = "tile_of 14 0 3 2"
       and vs = example_values and ?st2.0 = won_session]
  obtain vs1 where v1: "linear_values (tiles (handleTileClick (tile_of 10 11 2 2) example_session))
      = Some vs1" "isSolvable vs1"
    using t b c l s by blast
  obtain vs2 where v2: "linear_values (tiles (handleTileClick (tile_of 10 11 2 2) example_session))
      = Some vs2"
      "even (inversions_spec (filter (\<lambda>x. x \<noteq> 0) vs2))
       \<longleftrightarrow> odd (inversions_spec (filter (\<lambda>x. x \<noteq> 0) example_values))"
    using t b c e z a nw l col by blast
  have "vs2 = vs1" using v1(1) v2(1) by simp
  then have m: "\<exists>vs'. linear_values (tiles (handleTileClick (tile_of 10 11 2 2) example_session))
        = Some vs' \<and> isSolvable vs'
         \<and> (even (inversions_spec (filter (\<lambda>x. x \<noteq> 0) vs'))
              \<longleftrightarrow> odd (inversions_spec (filter (\<lambda>x. x \<noteq> 0) example_values)))"
    using v1 v2 by blast
  have ne: "tiles won_session \<noteq> []"
    by (simp add: won_session_def solved_tiles)
  have r: "\<exists>ws. linear_values (tiles won_session) = Some ws \<and> isSolvable ws"
    using t reachable_won_session ne by blast
  show ?thesis
    using b c e z a nw l s m reachable_won_session ne r by blast
qed

end
